theory Spec2Isabelle
  imports Main "HOL-Library.AList"
begin

section \<open>Session state of the WeCom monitor: streams, debounce groups, reply addresses\<close>

text \<open>
  The development embeds the three classes of the monitor state module
  (\<^verbatim>\<open>StreamStore\<close>, \<^verbatim>\<open>ActiveReplyStore\<close>, \<^verbatim>\<open>MonitorState\<close>) as state-passing
  functions.

  Conventions of the embedding.
  \<^item> A JavaScript \<^verbatim>\<open>Map\<close> is an association list in insertion order: \<^verbatim>\<open>get\<close> is
    \<open>map_of\<close>, \<^verbatim>\<open>set\<close> is \<open>AList.update\<close> (an existing key keeps its position, a new
    key goes to the end), \<^verbatim>\<open>delete\<close> is \<open>AList.delete\<close>, and a \<^verbatim>\<open>for ... of entries()\<close>
    loop is a \<open>fold\<close> over the entries. Every loop of the module deletes at most the
    entry it is visiting from the map it iterates, so each entry present when the
    loop starts is visited exactly once.
  \<^item> Time stamps (\<^verbatim>\<open>Date.now()\<close>, the argument of \<^verbatim>\<open>prune\<close>) are integers of type
    \<open>int\<close>, in milliseconds. Each operation reads the clock once: the value is the
    argument \<open>now\<close>.
  \<^item> \<^verbatim>\<open>crypto.randomBytes(16).toString("hex")\<close> is an input of the operation that
    draws it (the argument \<open>freshId\<close>).
  \<^item> The truthiness tests of the source are written out: an optional string is truthy
    when it is present and not empty, an optional number when it is present and not
    zero; an object reference (a record, a timer handle) is truthy when present.
  \<^item> Callbacks are values: a mutator is a function on the stream record, a delivery
    callback a function from its parameters to what it throws, and the flush handler
    is known by an identity, its calls being appended to a log. Callbacks do not call
    back into the stores.
\<close>

subsection \<open>Constants\<close>

definition STREAM_TTL_MS :: int where
  "STREAM_TTL_MS = 10 * 60 * 1000"

definition ACTIVE_REPLY_TTL_MS :: int where
  "ACTIVE_REPLY_TTL_MS = 60 * 60 * 1000"

definition DEFAULT_DEBOUNCE_MS :: int where
  "DEFAULT_DEBOUNCE_MS = 500"

subsection \<open>JavaScript truthiness and \<^verbatim>\<open>String.prototype.trim\<close>\<close>

fun truthyNum :: "int option \<Rightarrow> bool" where
  "truthyNum None = False"
| "truthyNum (Some n) = (n \<noteq> 0)"

text \<open>
  A \<open>char\<close> stands for a code unit below 256, so the strings of the model are the
  JavaScript strings over that range. Among these code units the white space and line
  terminators that \<^verbatim>\<open>trim\<close> strips are TAB, LF, VT, FF, CR, SPACE and NBSP.
\<close>

definition isJsSpace :: "char \<Rightarrow> bool" where
  "isJsSpace c = (of_char c \<in> {9, 10, 11, 12, 13, 32, 160 :: nat})"

definition trim :: "string \<Rightarrow> string" where
  "trim s = rev (dropWhile isJsSpace (rev (dropWhile isJsSpace s)))"

subsection \<open>Data model (\<^verbatim>\<open>types.ts\<close>)\<close>

record StreamState =
  streamId :: string
  msgid :: "string option"
  createdAt :: int
  updatedAt :: int
  started :: bool
  finished :: bool
  content :: string

text \<open>
  Of the inbound message only \<^verbatim>\<open>msgid\<close> is read by the module; the remaining fields are
  the opaque component \<open>m_rest\<close>. The webhook target is opaque as well (type \<open>'t\<close>).
\<close>

record 'r WecomInboundMessage =
  m_msgid :: "string option"
  m_rest :: 'r

record ('t, 'r) PendingInbound =
  p_streamId :: string
  p_target :: 't
  p_msg :: "'r WecomInboundMessage"
  contents :: "string list"
  msgids :: "string list"
  p_nonce :: string
  p_timestamp :: string
  p_createdAt :: int
  timeout :: "nat option"

record ActiveReplyState =
  response_url :: string
  proxyUrl :: "string option"
  r_createdAt :: int
  usedAt :: "int option"
  lastError :: "string option"

subsection \<open>The timer table of the runtime\<close>

text \<open>
  \<^verbatim>\<open>setTimeout(() => this.flushPending(pendingKey), delay)\<close> registers a timer whose only
  free data are the grouping key and the delay; the table keeps both together with
  the time of the call. Handles are drawn from a counter.
\<close>

record Timer =
  t_key :: string
  t_setAt :: int
  t_delay :: int

subsection \<open>\<^verbatim>\<open>StreamStore\<close>\<close>

text \<open>
  The first four fields are the private fields of the class. \<open>onFlush\<close> holds the
  identity of the registered handler. The last three fields are the part of the
  environment the class acts on: the active timers, the next timer handle, and the
  log of the calls made to the flush handler (handler and argument, oldest first).
\<close>

record ('t, 'r) StreamStore =
  streams :: "(string \<times> StreamState) list"
  msgidToStreamId :: "(string \<times> string) list"
  pendingInbounds :: "(string \<times> ('t, 'r) PendingInbound) list"
  onFlush :: "nat option"
  timers :: "(nat \<times> Timer) list"
  nextTimer :: nat
  flushCalls :: "(nat \<times> ('t, 'r) PendingInbound) list"

definition new_StreamStore :: "('t, 'r) StreamStore" where
  "new_StreamStore =
     \<lparr>streams = [], msgidToStreamId = [], pendingInbounds = [], onFlush = None,
      timers = [], nextTimer = 0, flushCalls = []\<rparr>"

definition setTimeout ::
  "string \<Rightarrow> int \<Rightarrow> int \<Rightarrow> ('t, 'r) StreamStore \<Rightarrow> nat \<times> ('t, 'r) StreamStore" where
  "setTimeout key delay now st =
     (nextTimer st,
      st\<lparr>timers := AList.update (nextTimer st)
                      \<lparr>t_key = key, t_setAt = now, t_delay = delay\<rparr> (timers st),
         nextTimer := Suc (nextTimer st)\<rparr>)"

definition clearTimeout :: "nat \<Rightarrow> ('t, 'r) StreamStore \<Rightarrow> ('t, 'r) StreamStore" where
  "clearTimeout h st = st\<lparr>timers := AList.delete h (timers st)\<rparr>"

definition setFlushHandler :: "nat \<Rightarrow> ('t, 'r) StreamStore \<Rightarrow> ('t, 'r) StreamStore" where
  "setFlushHandler handler st = st\<lparr>onFlush := Some handler\<rparr>"

definition createStream ::
  "string option \<Rightarrow> string \<Rightarrow> int \<Rightarrow> ('t, 'r) StreamStore \<Rightarrow> string \<times> ('t, 'r) StreamStore" where
  "createStream params_msgid freshId now st =
     (let st1 = (case params_msgid of
                   Some m \<Rightarrow>
                     if m \<noteq> []
                     then st\<lparr>msgidToStreamId := AList.update m freshId (msgidToStreamId st)\<rparr>
                     else st
                 | None \<Rightarrow> st);
          st2 = st1\<lparr>streams :=
                      AList.update freshId
                        \<lparr>streamId = freshId, msgid = params_msgid, createdAt = now,
                         updatedAt = now, started = False, finished = False, content = []\<rparr>
                        (streams st1)\<rparr>
      in (freshId, st2))"

definition getStream :: "('t, 'r) StreamStore \<Rightarrow> string \<Rightarrow> StreamState option" where
  "getStream st sid = map_of (streams st) sid"

definition getStreamByMsgId :: "('t, 'r) StreamStore \<Rightarrow> string \<Rightarrow> string option" where
  "getStreamByMsgId st m = map_of (msgidToStreamId st) m"

definition updateStream ::
  "string \<Rightarrow> (StreamState \<Rightarrow> StreamState) \<Rightarrow> int \<Rightarrow> ('t, 'r) StreamStore \<Rightarrow> ('t, 'r) StreamStore" where
  "updateStream sid mutator now st =
     (case map_of (streams st) sid of
        Some state \<Rightarrow>
          st\<lparr>streams := AList.update sid ((mutator state)\<lparr>updatedAt := now\<rparr>) (streams st)\<rparr>
      | None \<Rightarrow> st)"

definition markStarted :: "string \<Rightarrow> int \<Rightarrow> ('t, 'r) StreamStore \<Rightarrow> ('t, 'r) StreamStore" where
  "markStarted sid now st = updateStream sid (\<lambda>s. s\<lparr>started := True\<rparr>) now st"

definition markFinished :: "string \<Rightarrow> int \<Rightarrow> ('t, 'r) StreamStore \<Rightarrow> ('t, 'r) StreamStore" where
  "markFinished sid now st = updateStream sid (\<lambda>s. s\<lparr>finished := True\<rparr>) now st"

text \<open>The parameter object of \<^verbatim>\<open>addPendingMessage\<close>.\<close>

record ('t, 'r) AddParams =
  pendingKey :: string
  target :: 't
  msg :: "'r WecomInboundMessage"
  msgContent :: string
  nonce :: string
  timestamp :: string
  debounceMs :: "int option"

text \<open>
  The result pair is \<^verbatim>\<open>{ streamId, isNew }\<close>. In the first branch the existing group
  object is mutated in place, so it stays at its position in the map.
\<close>

definition addPendingMessage ::
  "('t, 'r) AddParams \<Rightarrow> string \<Rightarrow> int \<Rightarrow> ('t, 'r) StreamStore
     \<Rightarrow> (string \<times> bool) \<times> ('t, 'r) StreamStore" where
  "addPendingMessage params freshId now st =
     (let effectiveDebounceMs =
            (case debounceMs params of Some d \<Rightarrow> d | None \<Rightarrow> DEFAULT_DEBOUNCE_MS)
      in case map_of (pendingInbounds st) (pendingKey params) of
           Some existing \<Rightarrow>
             let e1 = existing\<lparr>contents := contents existing @ [msgContent params]\<rparr>;
                 e2 = (case m_msgid (msg params) of
                         Some m \<Rightarrow> if m \<noteq> [] then e1\<lparr>msgids := msgids e1 @ [m]\<rparr> else e1
                       | None \<Rightarrow> e1);
                 st1 = (case timeout e2 of Some h \<Rightarrow> clearTimeout h st | None \<Rightarrow> st);
                 (h', st2) = setTimeout (pendingKey params) effectiveDebounceMs now st1;
                 e3 = e2\<lparr>timeout := Some h'\<rparr>
             in ((p_streamId existing, False),
                 st2\<lparr>pendingInbounds :=
                       AList.update (pendingKey params) e3 (pendingInbounds st2)\<rparr>)
         | None \<Rightarrow>
             let (sid, st1) = createStream (m_msgid (msg params)) freshId now st;
                 (h, st2) = setTimeout (pendingKey params) effectiveDebounceMs now st1;
                 pending =
                   \<lparr>p_streamId = sid, p_target = target params, p_msg = msg params,
                    contents = [msgContent params],
                    msgids = (case m_msgid (msg params) of
                                Some m \<Rightarrow> if m \<noteq> [] then [m] else []
                              | None \<Rightarrow> []),
                    p_nonce = nonce params, p_timestamp = timestamp params,
                    p_createdAt = now, timeout = Some h\<rparr>
             in ((sid, True),
                 st2\<lparr>pendingInbounds :=
                       AList.update (pendingKey params) pending (pendingInbounds st2)\<rparr>))"

definition flushPending :: "string \<Rightarrow> ('t, 'r) StreamStore \<Rightarrow> ('t, 'r) StreamStore" where
  "flushPending key st =
     (case map_of (pendingInbounds st) key of
        None \<Rightarrow> st
      | Some pending \<Rightarrow>
          let st1 = st\<lparr>pendingInbounds := AList.delete key (pendingInbounds st)\<rparr>;
              (st2, pending') =
                (case timeout pending of
                   Some h \<Rightarrow> (clearTimeout h st1, pending\<lparr>timeout := None\<rparr>)
                 | None \<Rightarrow> (st1, pending))
          in (case onFlush st2 of
                Some handler \<Rightarrow> st2\<lparr>flushCalls := flushCalls st2 @ [(handler, pending')]\<rparr>
              | None \<Rightarrow> st2))"

text \<open>
  The runtime fires a timer that is still in its table: the timer leaves the table and
  its callback, \<^verbatim>\<open>() => this.flushPending(pendingKey)\<close>, runs. A handle that is not in the
  table (cancelled, or fired before) does nothing.
\<close>

definition fireTimer :: "nat \<Rightarrow> ('t, 'r) StreamStore \<Rightarrow> ('t, 'r) StreamStore" where
  "fireTimer h st =
     (case map_of (timers st) h of
        None \<Rightarrow> st
      | Some t \<Rightarrow> flushPending (t_key t) (st\<lparr>timers := AList.delete h (timers st)\<rparr>))"

text \<open>The bodies of the three loops of \<^verbatim>\<open>prune\<close>, one visited entry each.\<close>

definition pruneStreamStep ::
  "int \<Rightarrow> string \<times> StreamState \<Rightarrow> ('t, 'r) StreamStore \<Rightarrow> ('t, 'r) StreamStore" where
  "pruneStreamStep streamCutoff entry st =
     (case entry of (sid, state) \<Rightarrow>
        if updatedAt state < streamCutoff
        then let st1 = st\<lparr>streams := AList.delete sid (streams st)\<rparr>
             in case msgid state of
                  Some m \<Rightarrow>
                    if m \<noteq> [] \<and> map_of (msgidToStreamId st1) m = Some sid
                    then st1\<lparr>msgidToStreamId := AList.delete m (msgidToStreamId st1)\<rparr>
                    else st1
                | None \<Rightarrow> st1
        else st)"

definition pruneIndexStep ::
  "string \<times> string \<Rightarrow> ('t, 'r) StreamStore \<Rightarrow> ('t, 'r) StreamStore" where
  "pruneIndexStep entry st =
     (case entry of (m, sid) \<Rightarrow>
        if map_of (streams st) sid = None
        then st\<lparr>msgidToStreamId := AList.delete m (msgidToStreamId st)\<rparr>
        else st)"

definition prunePendingStep ::
  "int \<Rightarrow> string \<times> ('t, 'r) PendingInbound \<Rightarrow> ('t, 'r) StreamStore \<Rightarrow> ('t, 'r) StreamStore" where
  "prunePendingStep now entry st =
     (case entry of (key, pending) \<Rightarrow>
        if now - p_createdAt pending > STREAM_TTL_MS
        then let st1 = (case timeout pending of Some h \<Rightarrow> clearTimeout h st | None \<Rightarrow> st)
             in st1\<lparr>pendingInbounds := AList.delete key (pendingInbounds st1)\<rparr>
        else st)"

definition pruneStreams :: "int \<Rightarrow> ('t, 'r) StreamStore \<Rightarrow> ('t, 'r) StreamStore" where
  "pruneStreams now st = fold (pruneStreamStep (now - STREAM_TTL_MS)) (streams st) st"

definition pruneIndex :: "('t, 'r) StreamStore \<Rightarrow> ('t, 'r) StreamStore" where
  "pruneIndex st = fold pruneIndexStep (msgidToStreamId st) st"

definition prunePending :: "int \<Rightarrow> ('t, 'r) StreamStore \<Rightarrow> ('t, 'r) StreamStore" where
  "prunePending now st = fold (prunePendingStep now) (pendingInbounds st) st"

definition prune :: "int \<Rightarrow> ('t, 'r) StreamStore \<Rightarrow> ('t, 'r) StreamStore" where
  "prune now st = prunePending now (pruneIndex (pruneStreams now st))"

subsection \<open>\<^verbatim>\<open>ActiveReplyStore\<close>\<close>

datatype policy = Once | Multi

record ActiveReplyStore =
  policy :: policy
  activeReplies :: "(string \<times> ActiveReplyState) list"

text \<open>The constructor; its parameter defaults to \<^verbatim>\<open>"once"\<close>.\<close>

definition new_ActiveReplyStore :: "policy option \<Rightarrow> ActiveReplyStore" where
  "new_ActiveReplyStore p =
     \<lparr>policy = (case p of Some q \<Rightarrow> q | None \<Rightarrow> Once), activeReplies = []\<rparr>"

definition store ::
  "string \<Rightarrow> string option \<Rightarrow> string option \<Rightarrow> int \<Rightarrow> ActiveReplyStore \<Rightarrow> ActiveReplyStore" where
  "store sid responseUrl proxy now ars =
     (case responseUrl of
        None \<Rightarrow> ars
      | Some r \<Rightarrow>
          let url = trim r
          in if url = [] then ars
             else ars\<lparr>activeReplies :=
                        AList.update sid
                          \<lparr>response_url = url, proxyUrl = proxy, r_createdAt = now,
                           usedAt = None, lastError = None\<rparr>
                          (activeReplies ars)\<rparr>)"

definition getUrl :: "ActiveReplyStore \<Rightarrow> string \<Rightarrow> string option" where
  "getUrl ars sid = map_option response_url (map_of (activeReplies ars) sid)"

text \<open>
  A value thrown by the delivery callback is an \<^verbatim>\<open>Error\<close> with its message, or another
  value with its \<^verbatim>\<open>String(err)\<close> rendering. The callback is a function from the
  parameters it receives to the value it throws, \<open>None\<close> when it returns normally.
  \<^verbatim>\<open>use\<close> fails with the policy error or re-throws the callback's value.
\<close>

datatype thrown = ErrorObj string | OtherValue string

fun thrownMessage :: "thrown \<Rightarrow> string" where
  "thrownMessage (ErrorObj m) = m"
| "thrownMessage (OtherValue s) = s"

datatype use_error = PolicyViolation string | DeliveryFailure thrown

type_synonym deliver = "string \<times> string option \<Rightarrow> thrown option"

text \<open>
  \<^verbatim>\<open>use\<close> awaits the callback; the model runs the call to completion as one step, with
  \<open>now\<close> the clock reading after the callback has returned. The result is the outcome
  of the call, the list of parameter objects the callback was invoked with, and the
  store afterwards.
\<close>

definition use ::
  "string \<Rightarrow> deliver \<Rightarrow> int \<Rightarrow> ActiveReplyStore
     \<Rightarrow> (use_error + unit) \<times> (string \<times> string option) list \<times> ActiveReplyStore" where
  "use sid fn now ars =
     (case map_of (activeReplies ars) sid of
        None \<Rightarrow> (Inr (), [], ars)
      | Some state \<Rightarrow>
          if response_url state = [] then (Inr (), [], ars)
          else if policy ars = Once \<and> truthyNum (usedAt state)
          then (Inl (PolicyViolation
                  (''response_url already used for stream '' @ sid @ '' (Policy: once)'')),
                [], ars)
          else
            let params = (response_url state, proxyUrl state)
            in (case fn params of
                  None \<Rightarrow>
                    (Inr (), [params],
                     ars\<lparr>activeReplies :=
                           AList.update sid (state\<lparr>usedAt := Some now\<rparr>) (activeReplies ars)\<rparr>)
                | Some err \<Rightarrow>
                    (Inl (DeliveryFailure err), [params],
                     ars\<lparr>activeReplies :=
                           AList.update sid (state\<lparr>lastError := Some (thrownMessage err)\<rparr>)
                             (activeReplies ars)\<rparr>)))"

definition pruneReplyStep ::
  "int \<Rightarrow> string \<times> ActiveReplyState \<Rightarrow> ActiveReplyStore \<Rightarrow> ActiveReplyStore" where
  "pruneReplyStep cutoff entry ars =
     (case entry of (sid, state) \<Rightarrow>
        if r_createdAt state < cutoff
        then ars\<lparr>activeReplies := AList.delete sid (activeReplies ars)\<rparr>
        else ars)"

definition pruneReplies :: "int \<Rightarrow> ActiveReplyStore \<Rightarrow> ActiveReplyStore" where
  "pruneReplies now ars =
     fold (pruneReplyStep (now - ACTIVE_REPLY_TTL_MS)) (activeReplies ars) ars"

subsection \<open>\<^verbatim>\<open>MonitorState\<close> and the module singleton\<close>

record ('t, 'r) MonitorState =
  streamStore :: "('t, 'r) StreamStore"
  activeReplyStore :: ActiveReplyStore
  pruneInterval :: "int option"

definition monitorState :: "('t, 'r) MonitorState" where
  "monitorState =
     \<lparr>streamStore = new_StreamStore, activeReplyStore = new_ActiveReplyStore (Some Multi),
      pruneInterval = None\<rparr>"

definition startPruning :: "int option \<Rightarrow> ('t, 'r) MonitorState \<Rightarrow> ('t, 'r) MonitorState" where
  "startPruning intervalMs ms =
     (case pruneInterval ms of
        Some _ \<Rightarrow> ms
      | None \<Rightarrow> ms\<lparr>pruneInterval := Some (case intervalMs of Some i \<Rightarrow> i | None \<Rightarrow> 60000)\<rparr>)"

definition stopPruning :: "('t, 'r) MonitorState \<Rightarrow> ('t, 'r) MonitorState" where
  "stopPruning ms = ms\<lparr>pruneInterval := None\<rparr>"

text \<open>One tick of the sweep started by \<^verbatim>\<open>startPruning\<close>.\<close>

definition sweepTick :: "int \<Rightarrow> ('t, 'r) MonitorState \<Rightarrow> ('t, 'r) MonitorState" where
  "sweepTick now ms =
     ms\<lparr>streamStore := prune now (streamStore ms),
        activeReplyStore := pruneReplies now (activeReplyStore ms)\<rparr>"

subsection \<open>Invariant of the stream store\<close>

text \<open>
  Every group in the pending map owns a live timer registered for its key, and every
  live timer is below the handle counter and is the current timer of the group of
  its key.
\<close>

definition timersInv :: "('t, 'r) StreamStore \<Rightarrow> bool" where
  "timersInv st \<longleftrightarrow>
     (\<forall>(k, p) \<in> set (pendingInbounds st).
        map_option t_key (Option.bind (timeout p) (map_of (timers st))) = Some k) \<and>
     (\<forall>(h, t) \<in> set (timers st).
        h < nextTimer st \<and>
        Option.bind (map_of (pendingInbounds st) (t_key t)) timeout = Some h)"

text \<open>
  A \<^verbatim>\<open>Map\<close> holds a key once; the index never has the empty message id as a key,
  because \<^verbatim>\<open>createStream\<close>, its only writer, skips it.
\<close>

definition storeInv :: "('t, 'r) StreamStore \<Rightarrow> bool" where
  "storeInv st \<longleftrightarrow>
     distinct (map fst (streams st)) \<and>
     distinct (map fst (msgidToStreamId st)) \<and>
     distinct (map fst (pendingInbounds st)) \<and>
     distinct (map fst (timers st)) \<and>
     [] \<notin> set (map fst (msgidToStreamId st)) \<and>
     timersInv st"

text \<open>
  The states a store reaches from construction through its public methods and the
  firing of timers (\<^verbatim>\<open>flushPending\<close> is private and runs only from a timer). Every
  such state satisfies \<open>storeInv\<close> (lemma \<open>reachableStore_storeInv\<close> below).
\<close>

inductive reachableStore :: "('t, 'r) StreamStore \<Rightarrow> bool" where
  rs_new: "reachableStore new_StreamStore"
| rs_setFlushHandler: "reachableStore st \<Longrightarrow> reachableStore (setFlushHandler handler st)"
| rs_createStream:
    "reachableStore st \<Longrightarrow> reachableStore (snd (createStream params_msgid freshId now st))"
| rs_updateStream: "reachableStore st \<Longrightarrow> reachableStore (updateStream sid mutator now st)"
| rs_addPendingMessage:
    "reachableStore st \<Longrightarrow> reachableStore (snd (addPendingMessage params freshId now st))"
| rs_fireTimer: "reachableStore st \<Longrightarrow> reachableStore (fireTimer h st)"
| rs_prune: "reachableStore st \<Longrightarrow> reachableStore (prune now st)"

subsection \<open>A burst of arrivals\<close>

text \<open>
  A sequence of calls of \<^verbatim>\<open>addPendingMessage\<close>, each with its parameter object, the
  identifier drawn for it and its clock reading; the results are collected in call
  order.
\<close>

fun addPendingMessages ::
  "(('t, 'r) AddParams \<times> string \<times> int) list \<Rightarrow> ('t, 'r) StreamStore
     \<Rightarrow> (string \<times> bool) list \<times> ('t, 'r) StreamStore" where
  "addPendingMessages [] st = ([], st)"
| "addPendingMessages ((params, freshId, now) # rest) st =
     (let (r, st1) = addPendingMessage params freshId now st;
          (rs, st2) = addPendingMessages rest st1
      in (r # rs, st2))"

subsection \<open>Reachable states of the singleton's reply store\<close>

text \<open>
  \<^verbatim>\<open>activeReplyStore\<close> is a read-only field of the singleton and the map inside it is
  private, so the store changes only through its own methods.
\<close>

inductive monitorReplyStore :: "ActiveReplyStore \<Rightarrow> bool" where
  mrs_init: "monitorReplyStore (activeReplyStore (monitorState :: (unit, unit) MonitorState))"
| mrs_store: "monitorReplyStore ars \<Longrightarrow> monitorReplyStore (store sid responseUrl proxy now ars)"
| mrs_use: "monitorReplyStore ars \<Longrightarrow> monitorReplyStore (snd (snd (use sid fn now ars)))"
| mrs_prune: "monitorReplyStore ars \<Longrightarrow> monitorReplyStore (pruneReplies now ars)"

subsection \<open>Fixtures for the scenarios\<close>

definition deliverOk :: deliver where
  "deliverOk params = None"

definition deliverFail :: deliver where
  "deliverFail params = Some (ErrorObj ''boom'')"

definition emptyStore :: "(unit, unit) StreamStore" where
  "emptyStore = new_StreamStore"

definition onceStore :: ActiveReplyStore where
  "onceStore = store ''s1'' (Some ''https://reply.example/x'') None 1000 (new_ActiveReplyStore None)"

definition streamStore1 :: "(unit, unit) StreamStore" where
  "streamStore1 = snd (createStream (Some ''m1'') ''id1'' 1000 emptyStore)"

definition streamStore2 :: "(unit, unit) StreamStore" where
  "streamStore2 = snd (createStream (Some ''m2'') ''id2'' 500000 streamStore1)"

definition store0 :: "(unit, unit) StreamStore" where
  "store0 = setFlushHandler 7 emptyStore"

definition arrivalHello :: "(unit, unit) AddParams" where
  "arrivalHello =
     \<lparr>pendingKey = ''u1'', target = (), msg = \<lparr>m_msgid = Some ''m1'', m_rest = ()\<rparr>,
      msgContent = ''hello'', nonce = ''n1'', timestamp = ''t1'', debounceMs = Some 500\<rparr>"

definition arrivalWorld :: "(unit, unit) AddParams" where
  "arrivalWorld =
     \<lparr>pendingKey = ''u1'', target = (), msg = \<lparr>m_msgid = Some ''m2'', m_rest = ()\<rparr>,
      msgContent = '' world'', nonce = ''n2'', timestamp = ''t2'', debounceMs = None\<rparr>"

definition arrivalOther :: "(unit, unit) AddParams" where
  "arrivalOther =
     \<lparr>pendingKey = ''u2'', target = (), msg = \<lparr>m_msgid = None, m_rest = ()\<rparr>,
      msgContent = ''later'', nonce = ''n3'', timestamp = ''t3'', debounceMs = None\<rparr>"

definition pendingStore1 :: "(unit, unit) StreamStore" where
  "pendingStore1 = snd (addPendingMessage arrivalHello ''id1'' 1000 store0)"

definition pendingStore2 :: "(unit, unit) StreamStore" where
  "pendingStore2 = snd (addPendingMessage arrivalOther ''id2'' 700000 pendingStore1)"

section \<open>Properties of the reply-address store\<close>

lemma trim_Nil_iff: "trim r = [] \<longleftrightarrow> (\<forall>c \<in> set r. isJsSpace c)"
proof
  assume "trim r = []"
  then have all: "\<forall>x \<in> set (dropWhile isJsSpace r). isJsSpace x"
    by (simp add: trim_def)
  have "dropWhile isJsSpace r = []"
  proof (rule ccontr)
    assume ne: "dropWhile isJsSpace r \<noteq> []"
    then have "\<not> isJsSpace (hd (dropWhile isJsSpace r))" by (rule hd_dropWhile)
    moreover from ne have "hd (dropWhile isJsSpace r) \<in> set (dropWhile isJsSpace r)" by simp
    ultimately show False using all by blast
  qed
  then show "\<forall>c \<in> set r. isJsSpace c" by simp
next
  assume "\<forall>c \<in> set r. isJsSpace c"
  then have "\<forall>x \<in> set (dropWhile isJsSpace r). isJsSpace x"
    by (blast dest: set_dropWhileD)
  then show "trim r = []" by (simp add: trim_def)
qed

lemma policy_store: "policy (store sid responseUrl proxy now ars) = policy ars"
  by (simp add: store_def Let_def split: option.splits)

lemma policy_use: "policy (snd (snd (use sid fn now ars))) = policy ars"
  by (simp add: use_def Let_def split: option.splits)

lemma policy_pruneReplyStep: "policy (pruneReplyStep c e ars) = policy ars"
  by (simp add: pruneReplyStep_def split: prod.splits)

lemma policy_fold_pruneReplyStep: "policy (fold (pruneReplyStep c) es ars) = policy ars"
  by (induction es arbitrary: ars) (simp_all add: policy_pruneReplyStep)

lemma policy_pruneReplies: "policy (pruneReplies now ars) = policy ars"
  by (simp add: pruneReplies_def policy_fold_pruneReplyStep)

lemma monitorReplyStore_policy: "monitorReplyStore ars \<Longrightarrow> policy ars = Multi"
  by (induction rule: monitorReplyStore.induct)
     (simp_all add: monitorState_def new_ActiveReplyStore_def policy_store policy_use
        policy_pruneReplies)

lemma use_multi_no_violation:
  "policy ars = Multi \<Longrightarrow> fst (use sid fn now ars) \<noteq> Inl (PolicyViolation m)"
  by (simp add: use_def Let_def split: option.splits)

lemma onceStore_eq:
  "onceStore =
     \<lparr>policy = Once,
      activeReplies =
        [(''s1'', \<lparr>response_url = ''https://reply.example/x'', proxyUrl = None,
                   r_createdAt = 1000, usedAt = None, lastError = None\<rparr>)]\<rparr>"
  by (simp add: onceStore_def store_def new_ActiveReplyStore_def trim_def isJsSpace_def)

text \<open>
  The success path of the single-use guarantee: under the \<^verbatim>\<open>once\<close> policy, after a
  \<^verbatim>\<open>use\<close> whose delivery callback returned normally (with a clock reading that is not
  zero), the next \<^verbatim>\<open>use\<close> fails with the policy error, does not invoke its callback and
  leaves the store as it is.
\<close>

lemma use_once_after_success:
  assumes "policy ars = Once"
    and "map_of (activeReplies ars) s = Some state"
    and "response_url state \<noteq> []"
    and "usedAt state = None"
    and "fn1 (response_url state, proxyUrl state) = None"
    and "t1 \<noteq> 0"
  shows "fst (use s fn1 t1 ars) = Inr ()"
    and "fst (snd (use s fn1 t1 ars)) = [(response_url state, proxyUrl state)]"
    and "use s fn2 t2 (snd (snd (use s fn1 t1 ars))) =
           (Inl (PolicyViolation
              (''response_url already used for stream '' @ s @ '' (Policy: once)'')),
            [], snd (snd (use s fn1 t1 ars)))"
  using assms
  by (simp_all add: use_def Let_def update_conv')

text \<open>
  C1. The property asks that under the \<^verbatim>\<open>once\<close> policy, with an address bound for a
  stream, the second of two \<^verbatim>\<open>use\<close> calls fails with the policy error whether the first
  delivery callback succeeded or threw. The code misses the second half. Evaluated at
  the store of the scenario (\<^verbatim>\<open>once\<close> policy, address bound for stream \<^verbatim>\<open>s1\<close>), with a
  first callback that throws and a second that succeeds: the first call re-raises the
  thrown value and records its message, but leaves \<^verbatim>\<open>usedAt\<close> absent, because the
  assignment to \<^verbatim>\<open>usedAt\<close> follows the awaited callback inside the \<^verbatim>\<open>try\<close> block; the
  second call therefore passes the policy guard, invokes its callback with the bound
  address and returns successfully instead of failing with the policy error.
\<close>

theorem use_once_second_call_after_failure:
  "policy onceStore = Once \<and>
   getUrl onceStore ''s1'' = Some ''https://reply.example/x'' \<and>
   fst (use ''s1'' deliverFail 2000 onceStore) = Inl (DeliveryFailure (ErrorObj ''boom'')) \<and>
   map_of (activeReplies (snd (snd (use ''s1'' deliverFail 2000 onceStore)))) ''s1'' =
     Some \<lparr>response_url = ''https://reply.example/x'', proxyUrl = None,
           r_createdAt = 1000, usedAt = None, lastError = Some ''boom''\<rparr> \<and>
   fst (use ''s1'' deliverOk 3000 (snd (snd (use ''s1'' deliverFail 2000 onceStore)))) = Inr () \<and>
   fst (snd (use ''s1'' deliverOk 3000 (snd (snd (use ''s1'' deliverFail 2000 onceStore)))))
     = [(''https://reply.example/x'', None)]"
  by (simp add: onceStore_eq use_def getUrl_def deliverFail_def deliverOk_def)

text \<open>
  C9. \<^verbatim>\<open>store\<close> leaves the store as it is when the response URL is absent or blank
  after trimming; otherwise the stream is bound to a fresh record with the trimmed URL
  and the given proxy, with \<^verbatim>\<open>usedAt\<close> and \<^verbatim>\<open>lastError\<close> absent, and no other binding
  changes. \<^verbatim>\<open>use\<close> on a stream with no bound address returns successfully, does not
  invoke the delivery callback, and leaves the store as it is.
\<close>

theorem store_and_use_unbound:
  "((responseUrl = None \<or> (\<exists>r. responseUrl = Some r \<and> (\<forall>c \<in> set r. isJsSpace c))) \<longrightarrow>
      store sid responseUrl proxy now ars = ars) \<and>
   (\<forall>r. responseUrl = Some r \<and> \<not> (\<forall>c \<in> set r. isJsSpace c) \<longrightarrow>
      map_of (activeReplies (store sid responseUrl proxy now ars)) sid =
        Some \<lparr>response_url = trim r, proxyUrl = proxy, r_createdAt = now,
              usedAt = None, lastError = None\<rparr> \<and>
      trim r \<noteq> [] \<and>
      getUrl (store sid responseUrl proxy now ars) sid = Some (trim r) \<and>
      (\<forall>sid'. sid' \<noteq> sid \<longrightarrow>
         map_of (activeReplies (store sid responseUrl proxy now ars)) sid' =
           map_of (activeReplies ars) sid')) \<and>
   (map_of (activeReplies ars) sid = None \<longrightarrow> use sid fn now ars = (Inr (), [], ars))"
proof (intro conjI impI allI)
  assume "responseUrl = None \<or> (\<exists>r. responseUrl = Some r \<and> (\<forall>c \<in> set r. isJsSpace c))"
  then show "store sid responseUrl proxy now ars = ars"
    by (auto simp: store_def Let_def trim_Nil_iff)
next
  fix r
  assume h: "responseUrl = Some r \<and> \<not> (\<forall>c \<in> set r. isJsSpace c)"
  then have ne: "trim r \<noteq> []" by (simp add: trim_Nil_iff)
  then show "trim r \<noteq> []" .
  from h ne show "map_of (activeReplies (store sid responseUrl proxy now ars)) sid =
        Some \<lparr>response_url = trim r, proxyUrl = proxy, r_createdAt = now,
              usedAt = None, lastError = None\<rparr>"
    by (simp add: store_def Let_def update_conv')
  from h ne show "getUrl (store sid responseUrl proxy now ars) sid = Some (trim r)"
    by (simp add: getUrl_def store_def Let_def update_conv')
  fix sid'
  assume "sid' \<noteq> sid"
  with h ne show "map_of (activeReplies (store sid responseUrl proxy now ars)) sid' =
           map_of (activeReplies ars) sid'"
    by (simp add: store_def Let_def update_conv')
next
  assume "map_of (activeReplies ars) sid = None"
  then show "use sid fn now ars = (Inr (), [], ars)"
    by (simp add: use_def)
qed

theorem store_and_use_unbound_witness:
  "store ''s1'' None None 2000 onceStore = onceStore \<and>
   store ''s1'' (Some ''   '') (Some ''http://proxy'') 2000 onceStore = onceStore \<and>
   map_of (activeReplies (store ''s1'' (Some '' https://b.example/y '') (Some ''http://proxy'') 2000
       (snd (snd (use ''s1'' deliverOk 1500 onceStore))))) ''s1'' =
     Some \<lparr>response_url = ''https://b.example/y'', proxyUrl = Some ''http://proxy'',
           r_createdAt = 2000, usedAt = None, lastError = None\<rparr> \<and>
   use ''s2'' deliverFail 2000 onceStore = (Inr (), [], onceStore)"
  using store_and_use_unbound [of None "''s1''" None 2000 onceStore]
    store_and_use_unbound [of None "''s2''" None 2000 onceStore deliverFail]
    store_and_use_unbound [of "Some ''   ''" "''s1''" "Some ''http://proxy''" 2000 onceStore]
    store_and_use_unbound [of "Some '' https://b.example/y ''" "''s1''" "Some ''http://proxy''"
      2000 "snd (snd (use ''s1'' deliverOk 1500 onceStore))"]
  by (simp add: onceStore_eq isJsSpace_def trim_def)

text \<open>
  C10. The singleton builds its reply store with the \<^verbatim>\<open>multi\<close> policy, while the
  constructor's default is \<^verbatim>\<open>once\<close>. In every state the singleton's reply store can
  reach through its methods the policy is still \<^verbatim>\<open>multi\<close>, no \<^verbatim>\<open>use\<close> fails with the policy
  error, and a \<^verbatim>\<open>use\<close> on a bound address whose delivery callback succeeds succeeds,
  whatever the usage history of the record, and keeps the address bound.
\<close>

theorem monitorState_reply_store_is_multi:
  "policy (activeReplyStore (monitorState :: (unit, unit) MonitorState)) = Multi \<and>
   policy (new_ActiveReplyStore None) = Once \<and>
   (monitorReplyStore ars \<longrightarrow>
      policy ars = Multi \<and>
      fst (use sid fn now ars) \<noteq> Inl (PolicyViolation m) \<and>
      (\<forall>state. map_of (activeReplies ars) sid = Some state \<and> response_url state \<noteq> [] \<and>
          fn (response_url state, proxyUrl state) = None \<longrightarrow>
          use sid fn now ars =
            (Inr (), [(response_url state, proxyUrl state)],
             ars\<lparr>activeReplies :=
                   AList.update sid (state\<lparr>usedAt := Some now\<rparr>) (activeReplies ars)\<rparr>)))"
  using monitorReplyStore_policy [of ars] use_multi_no_violation [of ars sid fn now m]
  by (auto simp: monitorState_def new_ActiveReplyStore_def use_def)

theorem monitorState_reply_store_is_multi_witness:
  "fst (use ''s1'' deliverOk 3000
     (snd (snd (use ''s1'' deliverOk 2000
        (store ''s1'' (Some ''https://reply.example/x'') None 1000
           (activeReplyStore (monitorState :: (unit, unit) MonitorState))))))) = Inr () \<and>
   fst (snd (use ''s1'' deliverOk 3000
     (snd (snd (use ''s1'' deliverOk 2000
        (store ''s1'' (Some ''https://reply.example/x'') None 1000
           (activeReplyStore (monitorState :: (unit, unit) MonitorState)))))))) =
     [(''https://reply.example/x'', None)]"
proof -
  let ?a0 = "activeReplyStore (monitorState :: (unit, unit) MonitorState)"
  let ?a1 = "store ''s1'' (Some ''https://reply.example/x'') None 1000 ?a0"
  let ?a2 = "snd (snd (use ''s1'' deliverOk 2000 ?a1))"
  let ?state = "\<lparr>response_url = ''https://reply.example/x'', proxyUrl = None,
                  r_createdAt = 1000, usedAt = Some 2000, lastError = None\<rparr>"
  have r: "monitorReplyStore ?a2"
    by (intro mrs_use mrs_store mrs_init)
  have a2: "?a2 = \<lparr>policy = Multi, activeReplies = [(''s1'', ?state)]\<rparr>"
    by (simp add: monitorState_def new_ActiveReplyStore_def store_def use_def trim_def
        isJsSpace_def deliverOk_def)
  from a2 have b: "map_of (activeReplies ?a2) ''s1'' = Some ?state \<and> response_url ?state \<noteq> [] \<and>
      deliverOk (response_url ?state, proxyUrl ?state) = None"
    by (simp add: deliverOk_def)
  from monitorState_reply_store_is_multi [of ?a2 "''s1''" deliverOk 3000 "[]"] r b
  have "use ''s1'' deliverOk 3000 ?a2 =
      (Inr (), [(response_url ?state, proxyUrl ?state)],
       ?a2\<lparr>activeReplies :=
            AList.update ''s1'' (?state\<lparr>usedAt := Some 3000\<rparr>) (activeReplies ?a2)\<rparr>)"
    by blast
  then show ?thesis by simp
qed

section \<open>Properties of the stream registry\<close>

text \<open>
  C4, as stated, at a concrete input: for the empty message id \<^verbatim>\<open>createStream\<close> returns
  the new stream id but binds nothing in the index.
\<close>

theorem createStream_empty_msgid_not_indexed:
  "fst (createStream (Some []) ''id1'' 1000 emptyStore) = ''id1'' \<and>
   getStreamByMsgId (snd (createStream (Some []) ''id1'' 1000 emptyStore)) [] = None"
  by (simp add: createStream_def getStreamByMsgId_def emptyStore_def new_StreamStore_def)

text \<open>
  C4, amended. For every non-empty message id \<open>m\<close>, \<^verbatim>\<open>createStream\<close> with \<open>m\<close> returns the
  id it drew, and \<^verbatim>\<open>getStreamByMsgId\<close> of \<open>m\<close> afterwards returns that id, whatever \<open>m\<close> was
  bound to before (the last writer wins); the bindings of other message ids are
  unchanged. So a second event with the same \<open>m\<close> that asks the index first finds the
  first event's stream.
\<close>

theorem createStream_getStreamByMsgId:
  assumes "m \<noteq> []"
  shows "fst (createStream (Some m) sid now st) = sid \<and>
         getStreamByMsgId (snd (createStream (Some m) sid now st)) m = Some sid \<and>
         getStreamByMsgId
           (snd (createStream (Some m) sid2 now2 (snd (createStream (Some m) sid now st)))) m
           = Some sid2 \<and>
         (\<forall>m'. m' \<noteq> m \<longrightarrow>
            getStreamByMsgId (snd (createStream (Some m) sid now st)) m' = getStreamByMsgId st m')"
  using assms
  by (simp add: createStream_def getStreamByMsgId_def Let_def update_conv')

theorem createStream_getStreamByMsgId_witness:
  "''m1'' \<noteq> [] \<and>
   getStreamByMsgId (snd (createStream (Some ''m1'') ''id1'' 1000 emptyStore)) ''m1'' = Some ''id1'' \<and>
   getStreamByMsgId
     (snd (createStream (Some ''m1'') ''id2'' 2000
        (snd (createStream (Some ''m1'') ''id1'' 1000 emptyStore)))) ''m1'' = Some ''id2''"
  using createStream_getStreamByMsgId [of "''m1''" "''id1''" 1000 emptyStore "''id2''" 2000]
  by simp

text \<open>
  C7. \<^verbatim>\<open>updateStream\<close> on a stream that is absent returns the store unchanged, and so do
  \<^verbatim>\<open>markStarted\<close> and \<^verbatim>\<open>markFinished\<close>; the functions have no failure result. On a stream
  that exists the stored record becomes the mutator's result with \<^verbatim>\<open>updatedAt\<close> set to
  the clock reading, and no other stream changes.
\<close>

theorem updateStream_present_or_absent:
  "(getStream st sid = None \<longrightarrow>
      updateStream sid mutator now st = st \<and> markStarted sid now st = st \<and>
      markFinished sid now st = st) \<and>
   (\<forall>state. getStream st sid = Some state \<longrightarrow>
      getStream (updateStream sid mutator now st) sid = Some ((mutator state)\<lparr>updatedAt := now\<rparr>) \<and>
      getStream (markStarted sid now st) sid = Some (state\<lparr>started := True, updatedAt := now\<rparr>) \<and>
      getStream (markFinished sid now st) sid = Some (state\<lparr>finished := True, updatedAt := now\<rparr>) \<and>
      (\<forall>sid'. sid' \<noteq> sid \<longrightarrow>
         getStream (updateStream sid mutator now st) sid' = getStream st sid'))"
  by (simp add: updateStream_def markStarted_def markFinished_def getStream_def update_conv')

theorem updateStream_present_or_absent_witness:
  "getStream emptyStore ''id1'' = None \<and>
   markFinished ''id1'' 2000 emptyStore = emptyStore \<and>
   getStream (markFinished ''id1'' 2000 (snd (createStream (Some ''m1'') ''id1'' 1000 emptyStore)))
     ''id1'' =
     Some \<lparr>streamId = ''id1'', msgid = Some ''m1'', createdAt = 1000, updatedAt = 2000,
           started = False, finished = True, content = []\<rparr>"
  using updateStream_present_or_absent [of emptyStore "''id1''" id 2000]
    updateStream_present_or_absent
      [of "snd (createStream (Some ''m1'') ''id1'' 1000 emptyStore)" "''id1''" id 2000]
  by (simp add: createStream_def getStream_def emptyStore_def new_StreamStore_def)

section \<open>The loops of \<^verbatim>\<open>prune\<close>\<close>

text \<open>
  Each loop is a fold of deletions; its result is the map it started from restricted
  to the keys that no visited entry asked to delete.
\<close>

lemma restrict_delete_compl:
  "AList.restrict (- A) (AList.delete k xs) = AList.restrict (- insert k A) xs"
  by (induction xs) auto

lemma restrict_UNIV: "AList.restrict UNIV xs = xs"
  by (induction xs) auto

lemma restrict_delete_step:
  assumes "insert k A = B"
  shows "AList.restrict (- A) (AList.delete k xs) = AList.restrict (- B) xs"
  using assms restrict_delete_compl [of A k xs] by simp

lemma pruneStreamStep_streams:
  "streams (pruneStreamStep c (sid, state) st) =
     (if updatedAt state < c then AList.delete sid (streams st) else streams st)"
  by (simp add: pruneStreamStep_def Let_def split: option.splits)

lemma fold_pruneStreamStep_streams:
  "streams (fold (pruneStreamStep c) es st) =
     AList.restrict (- {sid. \<exists>state. (sid, state) \<in> set es \<and> updatedAt state < c}) (streams st)"
proof (induction es arbitrary: st)
  case Nil
  show ?case by (simp add: restrict_UNIV)
next
  case (Cons e es)
  obtain sid state where e: "e = (sid, state)" by (cases e)
  let ?E = "\<lambda>es. {s. \<exists>x. (s, x) \<in> set es \<and> updatedAt x < c}"
  have unfold: "streams (fold (pruneStreamStep c) (e # es) st) =
      AList.restrict (- ?E es) (streams (pruneStreamStep c e st))"
    using Cons.IH [of "pruneStreamStep c e st"] by simp
  show ?case
  proof (cases "updatedAt state < c")
    case True
    have "insert sid (?E es) = ?E (e # es)"
      using True e by auto
    then have "AList.restrict (- ?E es) (AList.delete sid (streams st)) =
        AList.restrict (- ?E (e # es)) (streams st)"
      by (rule restrict_delete_step)
    moreover have "streams (pruneStreamStep c e st) = AList.delete sid (streams st)"
      using True by (simp add: e pruneStreamStep_streams)
    ultimately show ?thesis using unfold by simp
  next
    case False
    have "?E es = ?E (e # es)"
      using False e by auto
    moreover have "streams (pruneStreamStep c e st) = streams st"
      using False by (simp add: e pruneStreamStep_streams)
    ultimately show ?thesis using unfold by simp
  qed
qed

lemma pruneStreamStep_index:
  "msgidToStreamId (pruneStreamStep c (sid, state) st) =
     (case msgid state of
        Some m \<Rightarrow>
          if updatedAt state < c \<and> m \<noteq> [] \<and> map_of (msgidToStreamId st) m = Some sid
          then AList.delete m (msgidToStreamId st) else msgidToStreamId st
      | None \<Rightarrow> msgidToStreamId st)"
  by (simp add: pruneStreamStep_def Let_def split: option.splits)

lemma fold_pruneStreamStep_index:
  "msgidToStreamId (fold (pruneStreamStep c) es st) =
     AList.restrict
       (- {m. m \<noteq> [] \<and> (\<exists>sid state. (sid, state) \<in> set es \<and> updatedAt state < c \<and>
              msgid state = Some m \<and> map_of (msgidToStreamId st) m = Some sid)})
       (msgidToStreamId st)"
proof (induction es arbitrary: st)
  case Nil
  show ?case by (simp add: restrict_UNIV)
next
  case (Cons e es)
  obtain sid state where e: "e = (sid, state)" by (cases e)
  let ?M = "\<lambda>es idx. {m. m \<noteq> [] \<and> (\<exists>sid state. (sid, state) \<in> set es \<and> updatedAt state < c \<and>
              msgid state = Some m \<and> map_of idx m = Some sid)}"
  have unfold: "msgidToStreamId (fold (pruneStreamStep c) (e # es) st) =
      AList.restrict (- ?M es (msgidToStreamId (pruneStreamStep c e st)))
        (msgidToStreamId (pruneStreamStep c e st))"
    using Cons.IH [of "pruneStreamStep c e st"] by simp
  show ?case
  proof (cases "\<exists>m. msgid state = Some m \<and> updatedAt state < c \<and> m \<noteq> [] \<and>
         map_of (msgidToStreamId st) m = Some sid")
    case True
    then obtain m where m: "msgid state = Some m" "updatedAt state < c" "m \<noteq> []"
        "map_of (msgidToStreamId st) m = Some sid"
      by auto
    have step: "msgidToStreamId (pruneStreamStep c e st) = AList.delete m (msgidToStreamId st)"
      using m by (simp add: e pruneStreamStep_index)
    have "insert m (?M es (AList.delete m (msgidToStreamId st))) = ?M (e # es) (msgidToStreamId st)"
      using m e by (auto simp: delete_conv')
    then have "AList.restrict (- ?M es (AList.delete m (msgidToStreamId st)))
          (AList.delete m (msgidToStreamId st)) =
        AList.restrict (- ?M (e # es) (msgidToStreamId st)) (msgidToStreamId st)"
      by (rule restrict_delete_step)
    then show ?thesis using unfold step by simp
  next
    case False
    have step: "msgidToStreamId (pruneStreamStep c e st) = msgidToStreamId st"
      using False by (auto simp: e pruneStreamStep_index split: option.splits)
    have "?M es (msgidToStreamId st) = ?M (e # es) (msgidToStreamId st)"
      using False e by auto
    then show ?thesis using unfold step by simp
  qed
qed

lemma fold_pruneStreamStep_rest:
  "pendingInbounds (fold (pruneStreamStep c) es st) = pendingInbounds st \<and>
   onFlush (fold (pruneStreamStep c) es st) = onFlush st \<and>
   timers (fold (pruneStreamStep c) es st) = timers st \<and>
   nextTimer (fold (pruneStreamStep c) es st) = nextTimer st \<and>
   flushCalls (fold (pruneStreamStep c) es st) = flushCalls st"
  by (induction es arbitrary: st)
     (simp_all add: pruneStreamStep_def Let_def split: prod.splits option.splits)

lemma pruneIndexStep_index:
  "msgidToStreamId (pruneIndexStep (m, sid) st) =
     (if map_of (streams st) sid = None then AList.delete m (msgidToStreamId st)
      else msgidToStreamId st)"
  by (simp add: pruneIndexStep_def)

lemma fold_pruneIndexStep_rest:
  "streams (fold pruneIndexStep es st) = streams st \<and>
   pendingInbounds (fold pruneIndexStep es st) = pendingInbounds st \<and>
   onFlush (fold pruneIndexStep es st) = onFlush st \<and>
   timers (fold pruneIndexStep es st) = timers st \<and>
   nextTimer (fold pruneIndexStep es st) = nextTimer st \<and>
   flushCalls (fold pruneIndexStep es st) = flushCalls st"
  by (induction es arbitrary: st)
     (simp_all add: pruneIndexStep_def split: prod.splits)

lemma fold_pruneIndexStep_index:
  "msgidToStreamId (fold pruneIndexStep es st) =
     AList.restrict (- {m. \<exists>sid. (m, sid) \<in> set es \<and> map_of (streams st) sid = None})
       (msgidToStreamId st)"
proof (induction es arbitrary: st)
  case Nil
  show ?case by (simp add: restrict_UNIV)
next
  case (Cons e es)
  obtain m sid where e: "e = (m, sid)" by (cases e)
  let ?D = "\<lambda>es. {m. \<exists>sid. (m, sid) \<in> set es \<and> map_of (streams st) sid = None}"
  have s: "streams (pruneIndexStep e st) = streams st"
    by (simp add: pruneIndexStep_def split: prod.splits)
  have unfold: "msgidToStreamId (fold pruneIndexStep (e # es) st) =
      AList.restrict (- ?D es) (msgidToStreamId (pruneIndexStep e st))"
    using Cons.IH [of "pruneIndexStep e st"] by (simp add: s)
  show ?case
  proof (cases "map_of (streams st) sid = None")
    case True
    have "insert m (?D es) = ?D (e # es)"
      using True e by auto
    then have "AList.restrict (- ?D es) (AList.delete m (msgidToStreamId st)) =
        AList.restrict (- ?D (e # es)) (msgidToStreamId st)"
      by (rule restrict_delete_step)
    moreover have "msgidToStreamId (pruneIndexStep e st) = AList.delete m (msgidToStreamId st)"
      using True by (simp add: e pruneIndexStep_index)
    ultimately show ?thesis using unfold by simp
  next
    case False
    have "?D es = ?D (e # es)"
      using False e by auto
    moreover have "msgidToStreamId (pruneIndexStep e st) = msgidToStreamId st"
      using False by (auto simp: e pruneIndexStep_index)
    ultimately show ?thesis using unfold by simp
  qed
qed

lemma fold_prunePendingStep_rest:
  "streams (fold (prunePendingStep now) es st) = streams st \<and>
   msgidToStreamId (fold (prunePendingStep now) es st) = msgidToStreamId st \<and>
   onFlush (fold (prunePendingStep now) es st) = onFlush st \<and>
   nextTimer (fold (prunePendingStep now) es st) = nextTimer st \<and>
   flushCalls (fold (prunePendingStep now) es st) = flushCalls st"
  by (induction es arbitrary: st)
     (simp_all add: prunePendingStep_def clearTimeout_def Let_def split: prod.splits option.splits)

lemma prunePendingStep_pending:
  "pendingInbounds (prunePendingStep now (k, p) st) =
     (if now - p_createdAt p > STREAM_TTL_MS then AList.delete k (pendingInbounds st)
      else pendingInbounds st)"
  by (simp add: prunePendingStep_def clearTimeout_def Let_def split: option.splits)

lemma prunePendingStep_timers:
  "timers (prunePendingStep now (k, p) st) =
     (case timeout p of
        Some h \<Rightarrow> if now - p_createdAt p > STREAM_TTL_MS then AList.delete h (timers st)
                  else timers st
      | None \<Rightarrow> timers st)"
  by (simp add: prunePendingStep_def clearTimeout_def Let_def split: option.splits)

lemma fold_prunePendingStep_pending:
  "pendingInbounds (fold (prunePendingStep now) es st) =
     AList.restrict (- {k. \<exists>p. (k, p) \<in> set es \<and> now - p_createdAt p > STREAM_TTL_MS})
       (pendingInbounds st)"
proof (induction es arbitrary: st)
  case Nil
  show ?case by (simp add: restrict_UNIV)
next
  case (Cons e es)
  obtain k p where e: "e = (k, p)" by (cases e)
  let ?K = "\<lambda>es. {k. \<exists>p. (k, p) \<in> set es \<and> now - p_createdAt p > STREAM_TTL_MS}"
  have unfold: "pendingInbounds (fold (prunePendingStep now) (e # es) st) =
      AList.restrict (- ?K es) (pendingInbounds (prunePendingStep now e st))"
    using Cons.IH [of "prunePendingStep now e st"] by simp
  show ?case
  proof (cases "now - p_createdAt p > STREAM_TTL_MS")
    case True
    have "insert k (?K es) = ?K (e # es)"
      using True e by auto
    then have "AList.restrict (- ?K es) (AList.delete k (pendingInbounds st)) =
        AList.restrict (- ?K (e # es)) (pendingInbounds st)"
      by (rule restrict_delete_step)
    moreover have "pendingInbounds (prunePendingStep now e st) = AList.delete k (pendingInbounds st)"
      using True by (simp add: e prunePendingStep_pending)
    ultimately show ?thesis using unfold by simp
  next
    case False
    have "?K es = ?K (e # es)"
      using False e by auto
    moreover have "pendingInbounds (prunePendingStep now e st) = pendingInbounds st"
      using False by (simp add: e prunePendingStep_pending)
    ultimately show ?thesis using unfold by simp
  qed
qed

lemma fold_prunePendingStep_timers:
  "timers (fold (prunePendingStep now) es st) =
     AList.restrict
       (- {h. \<exists>k p. (k, p) \<in> set es \<and> now - p_createdAt p > STREAM_TTL_MS \<and> timeout p = Some h})
       (timers st)"
proof (induction es arbitrary: st)
  case Nil
  show ?case by (simp add: restrict_UNIV)
next
  case (Cons e es)
  obtain k p where e: "e = (k, p)" by (cases e)
  let ?H = "\<lambda>es. {h. \<exists>k p. (k, p) \<in> set es \<and> now - p_createdAt p > STREAM_TTL_MS \<and>
                     timeout p = Some h}"
  have unfold: "timers (fold (prunePendingStep now) (e # es) st) =
      AList.restrict (- ?H es) (timers (prunePendingStep now e st))"
    using Cons.IH [of "prunePendingStep now e st"] by simp
  show ?case
  proof (cases "\<exists>h. timeout p = Some h \<and> now - p_createdAt p > STREAM_TTL_MS")
    case True
    then obtain h where h: "timeout p = Some h" "now - p_createdAt p > STREAM_TTL_MS" by auto
    have "insert h (?H es) = ?H (e # es)"
      using e h by auto
    then have "AList.restrict (- ?H es) (AList.delete h (timers st)) =
        AList.restrict (- ?H (e # es)) (timers st)"
      by (rule restrict_delete_step)
    moreover have "timers (prunePendingStep now e st) = AList.delete h (timers st)"
      using h by (simp add: e prunePendingStep_timers)
    ultimately show ?thesis using unfold by simp
  next
    case False
    have "?H es = ?H (e # es)"
      using False e by auto
    moreover have "timers (prunePendingStep now e st) = timers st"
      using False by (auto simp: e prunePendingStep_timers split: option.splits)
    ultimately show ?thesis using unfold by simp
  qed
qed


lemma prune_streams:
  "streams (prune now st) =
     AList.restrict
       (- {sid. \<exists>state. (sid, state) \<in> set (streams st) \<and> updatedAt state < now - STREAM_TTL_MS})
       (streams st)"
  by (simp add: prune_def prunePending_def pruneIndex_def pruneStreams_def
      fold_prunePendingStep_rest fold_pruneIndexStep_rest fold_pruneStreamStep_streams)

lemma prune_getStream:
  assumes "distinct (map fst (streams st))"
  shows "getStream (prune now st) sid =
     (case getStream st sid of
        None \<Rightarrow> None
      | Some state \<Rightarrow> if now - updatedAt state > STREAM_TTL_MS then None else Some state)"
proof (cases "map_of (streams st) sid")
  case None
  then show ?thesis
    by (simp add: getStream_def prune_streams restr_conv' restrict_map_def)
next
  case (Some state)
  with assms have "\<And>x. (sid, x) \<in> set (streams st) \<longleftrightarrow> x = state"
    by (metis map_of_eq_Some_iff option.inject)
  with Some show ?thesis
    by (auto simp: getStream_def prune_streams restr_conv' restrict_map_def)
qed

lemma set_restrict: "set (AList.restrict A xs) = {(k, v). (k, v) \<in> set xs \<and> k \<in> A}"
  by (induction xs) auto

lemma pruneStreams_streams:
  "streams (pruneStreams now st) =
     AList.restrict
       (- {sid. \<exists>state. (sid, state) \<in> set (streams st) \<and> updatedAt state < now - STREAM_TTL_MS})
       (streams st)"
  by (simp add: pruneStreams_def fold_pruneStreamStep_streams)

lemma pruneStreams_index:
  "msgidToStreamId (pruneStreams now st) =
     AList.restrict
       (- {m. m \<noteq> [] \<and> (\<exists>sid state. (sid, state) \<in> set (streams st) \<and>
              updatedAt state < now - STREAM_TTL_MS \<and>
              msgid state = Some m \<and> map_of (msgidToStreamId st) m = Some sid)})
       (msgidToStreamId st)"
  by (simp add: pruneStreams_def fold_pruneStreamStep_index)

lemma pruneIndex_index:
  "msgidToStreamId (pruneIndex st) =
     AList.restrict
       (- {m. \<exists>sid. (m, sid) \<in> set (msgidToStreamId st) \<and> map_of (streams st) sid = None})
       (msgidToStreamId st)"
  by (simp add: pruneIndex_def fold_pruneIndexStep_index)

lemma prune_index:
  "msgidToStreamId (prune now st) = msgidToStreamId (pruneIndex (pruneStreams now st)) \<and>
   streams (prune now st) = streams (pruneStreams now st)"
  by (simp add: prune_def prunePending_def pruneIndex_def fold_prunePendingStep_rest
      fold_pruneIndexStep_rest)

lemma prune_index_live:
  assumes "(m, sid) \<in> set (msgidToStreamId (prune now st))"
  shows "getStream (prune now st) sid \<noteq> None"
proof -
  let ?st1 = "pruneStreams now st"
  from assms have "(m, sid) \<in> set (msgidToStreamId (pruneIndex ?st1))"
    by (simp add: prune_index)
  then have "(m, sid) \<in> set (msgidToStreamId ?st1) \<and>
      m \<notin> {m. \<exists>sid. (m, sid) \<in> set (msgidToStreamId ?st1) \<and> map_of (streams ?st1) sid = None}"
    by (simp add: pruneIndex_index set_restrict)
  then have "map_of (streams ?st1) sid \<noteq> None" by auto
  then show ?thesis by (simp add: getStream_def prune_index)
qed

lemma pruneStreams_getStreamByMsgId:
  assumes "distinct (map fst (streams st))" and "[] \<notin> set (map fst (msgidToStreamId st))"
  shows "getStreamByMsgId (pruneStreams now st) m =
     (case getStreamByMsgId st m of
        None \<Rightarrow> None
      | Some sid \<Rightarrow>
          (case getStream st sid of
             None \<Rightarrow> Some sid
           | Some state \<Rightarrow>
               if now - updatedAt state > STREAM_TTL_MS \<and> msgid state = Some m then None
               else Some sid))"
proof -
  define M where "M = {m. m \<noteq> [] \<and> (\<exists>sid state. (sid, state) \<in> set (streams st) \<and>
              updatedAt state < now - STREAM_TTL_MS \<and>
              msgid state = Some m \<and> map_of (msgidToStreamId st) m = Some sid)}"
  have idx: "msgidToStreamId (pruneStreams now st) = AList.restrict (- M) (msgidToStreamId st)"
    unfolding M_def by (rule pruneStreams_index)
  have look: "map_of (msgidToStreamId (pruneStreams now st)) m =
      (if m \<in> M then None else map_of (msgidToStreamId st) m)"
    by (simp add: idx restr_conv' restrict_map_def)
  show ?thesis
  proof (cases "map_of (msgidToStreamId st) m")
    case None
    then show ?thesis by (simp add: look getStreamByMsgId_def)
  next
    case (Some sid)
    then have "(m, sid) \<in> set (msgidToStreamId st)" by (rule map_of_SomeD)
    then have "m \<in> set (map fst (msgidToStreamId st))" by force
    with assms(2) have ne: "m \<noteq> []" by metis
    show ?thesis
    proof (cases "map_of (streams st) sid")
      case None
      then have "\<And>x. (sid, x) \<notin> set (streams st)"
        by (metis assms(1) map_of_eq_Some_iff option.distinct(1))
      then have "m \<notin> M" using Some by (auto simp: M_def)
      with Some None show ?thesis
        by (simp add: look getStreamByMsgId_def getStream_def)
    next
      case state: (Some state)
      with assms(1) have uniq: "\<And>x. (sid, x) \<in> set (streams st) \<longleftrightarrow> x = state"
        by (metis map_of_eq_Some_iff option.inject)
      have "m \<in> M \<longleftrightarrow> now - updatedAt state > STREAM_TTL_MS \<and> msgid state = Some m"
        using uniq ne Some by (auto simp: M_def)
      with Some state show ?thesis
        by (simp add: look getStreamByMsgId_def getStream_def)
    qed
  qed
qed

lemma pruneIndex_getStreamByMsgId:
  assumes "distinct (map fst (msgidToStreamId st))"
  shows "getStreamByMsgId (pruneIndex st) m =
     (case getStreamByMsgId st m of
        None \<Rightarrow> None
      | Some sid \<Rightarrow> if getStream st sid = None then None else Some sid)"
proof (cases "map_of (msgidToStreamId st) m")
  case None
  then show ?thesis
    by (simp add: getStreamByMsgId_def pruneIndex_index restr_conv' restrict_map_def)
next
  case (Some sid)
  with assms have "\<And>x. (m, x) \<in> set (msgidToStreamId st) \<longleftrightarrow> x = sid"
    by (metis map_of_eq_Some_iff option.inject)
  with Some show ?thesis
    by (auto simp: getStreamByMsgId_def getStream_def pruneIndex_index restr_conv'
        restrict_map_def)
qed

lemma pruneStreams_distinct_index:
  "distinct (map fst (msgidToStreamId st)) \<Longrightarrow>
   distinct (map fst (msgidToStreamId (pruneStreams now st)))"
  by (simp add: pruneStreams_index distinct_restr)

section \<open>Properties of \<^verbatim>\<open>prune\<close> on streams and the index\<close>

lemma streamStore1_eq:
  "streamStore1 =
     \<lparr>streams = [(''id1'', \<lparr>streamId = ''id1'', msgid = Some ''m1'', createdAt = 1000,
                  updatedAt = 1000, started = False, finished = False, content = []\<rparr>)],
      msgidToStreamId = [(''m1'', ''id1'')], pendingInbounds = [], onFlush = None,
      timers = [], nextTimer = 0, flushCalls = []\<rparr>"
  by (simp add: streamStore1_def createStream_def emptyStore_def new_StreamStore_def)

lemma streamStore2_eq:
  "streamStore2 =
     \<lparr>streams = [(''id1'', \<lparr>streamId = ''id1'', msgid = Some ''m1'', createdAt = 1000,
                  updatedAt = 1000, started = False, finished = False, content = []\<rparr>),
                 (''id2'', \<lparr>streamId = ''id2'', msgid = Some ''m2'', createdAt = 500000,
                  updatedAt = 500000, started = False, finished = False, content = []\<rparr>)],
      msgidToStreamId = [(''m1'', ''id1''), (''m2'', ''id2'')], pendingInbounds = [],
      onFlush = None, timers = [], nextTimer = 0, flushCalls = []\<rparr>"
  by (simp add: streamStore2_def streamStore1_eq createStream_def)

text \<open>
  C5. In a store that satisfies the invariant, \<^verbatim>\<open>getStream\<close> after \<^verbatim>\<open>prune(now)\<close> is
  absent for a stream exactly when the stream was absent before or
  \<open>now - updatedAt\<close> exceeds \<open>STREAM_TTL_MS\<close>, which is 600000 ms; a stream whose age
  does not exceed the limit is returned unchanged.
\<close>

theorem prune_evicts_streams_past_ttl:
  assumes "storeInv st"
  shows "getStream (prune now st) sid =
     (case getStream st sid of
        None \<Rightarrow> None
      | Some state \<Rightarrow> if now - updatedAt state > STREAM_TTL_MS then None else Some state) \<and>
     STREAM_TTL_MS = 600000"
  using assms prune_getStream [of st now sid] by (simp add: storeInv_def STREAM_TTL_MS_def)

theorem prune_evicts_streams_past_ttl_witness:
  "storeInv streamStore1 \<and>
   getStream (prune 661000 streamStore1) ''id1'' = None \<and>
   getStream (prune 601000 streamStore1) ''id1'' =
     Some \<lparr>streamId = ''id1'', msgid = Some ''m1'', createdAt = 1000, updatedAt = 1000,
           started = False, finished = False, content = []\<rparr>"
proof -
  have inv: "storeInv streamStore1"
    by (simp add: streamStore1_eq storeInv_def timersInv_def)
  have g: "getStream streamStore1 ''id1'' =
     Some \<lparr>streamId = ''id1'', msgid = Some ''m1'', createdAt = 1000, updatedAt = 1000,
           started = False, finished = False, content = []\<rparr>"
    by (simp add: streamStore1_eq getStream_def)
  show ?thesis
    using inv prune_evicts_streams_past_ttl [OF inv, of 661000 "''id1''"]
      prune_evicts_streams_past_ttl [OF inv, of 601000 "''id1''"]
    by (simp add: g)
qed

text \<open>
  C6. In a store that satisfies the invariant: after \<^verbatim>\<open>prune(now)\<close> every entry of the
  index points at a stream that \<^verbatim>\<open>getStream\<close> finds. The first loop removes the entry
  of message id \<open>m\<close> exactly when the entry points at a stream that the loop removes
  and whose message id is \<open>m\<close>; an entry that points elsewhere stays. The second loop
  removes exactly the entries whose target is missing from the stream map.
\<close>

theorem prune_index_references_live_streams:
  assumes "storeInv st"
  shows "(\<forall>(m, sid) \<in> set (msgidToStreamId (prune now st)). getStream (prune now st) sid \<noteq> None) \<and>
     getStreamByMsgId (pruneStreams now st) m =
       (case getStreamByMsgId st m of
          None \<Rightarrow> None
        | Some sid \<Rightarrow>
            (case getStream st sid of
               None \<Rightarrow> Some sid
             | Some state \<Rightarrow>
                 if now - updatedAt state > STREAM_TTL_MS \<and> msgid state = Some m then None
                 else Some sid)) \<and>
     getStreamByMsgId (prune now st) m =
       (case getStreamByMsgId (pruneStreams now st) m of
          None \<Rightarrow> None
        | Some sid \<Rightarrow> if getStream (pruneStreams now st) sid = None then None else Some sid)"
proof (intro conjI)
  show "\<forall>(m, sid) \<in> set (msgidToStreamId (prune now st)). getStream (prune now st) sid \<noteq> None"
    using prune_index_live by blast
  show "getStreamByMsgId (pruneStreams now st) m =
       (case getStreamByMsgId st m of
          None \<Rightarrow> None
        | Some sid \<Rightarrow>
            (case getStream st sid of
               None \<Rightarrow> Some sid
             | Some state \<Rightarrow>
                 if now - updatedAt state > STREAM_TTL_MS \<and> msgid state = Some m then None
                 else Some sid))"
    using assms by (intro pruneStreams_getStreamByMsgId) (simp_all add: storeInv_def)
  have "getStreamByMsgId (prune now st) m = getStreamByMsgId (pruneIndex (pruneStreams now st)) m"
    by (simp add: getStreamByMsgId_def prune_index)
  moreover have "distinct (map fst (msgidToStreamId (pruneStreams now st)))"
    using assms by (simp add: storeInv_def pruneStreams_distinct_index)
  ultimately show "getStreamByMsgId (prune now st) m =
       (case getStreamByMsgId (pruneStreams now st) m of
          None \<Rightarrow> None
        | Some sid \<Rightarrow> if getStream (pruneStreams now st) sid = None then None else Some sid)"
    by (simp add: pruneIndex_getStreamByMsgId)
qed

theorem prune_index_references_live_streams_witness:
  "storeInv streamStore2 \<and>
   msgidToStreamId (prune 661000 streamStore2) = [(''m2'', ''id2'')] \<and>
   getStreamByMsgId (pruneStreams 661000 streamStore2) ''m1'' = None \<and>
   getStreamByMsgId (prune 661000 streamStore2) ''m2'' = Some ''id2'' \<and>
   getStream (prune 661000 streamStore2) ''id2'' \<noteq> None"
proof -
  have inv: "storeInv streamStore2"
    by (simp add: streamStore2_eq storeInv_def timersInv_def)
  have p: "msgidToStreamId (prune 661000 streamStore2) = [(''m2'', ''id2'')]"
    by (simp add: streamStore2_eq prune_def pruneStreams_def pruneIndex_def prunePending_def
        pruneStreamStep_def pruneIndexStep_def STREAM_TTL_MS_def)
  have g: "getStreamByMsgId streamStore2 ''m1'' = Some ''id1'' \<and>
      getStreamByMsgId streamStore2 ''m2'' = Some ''id2'' \<and>
      getStream streamStore2 ''id1'' =
        Some \<lparr>streamId = ''id1'', msgid = Some ''m1'', createdAt = 1000, updatedAt = 1000,
              started = False, finished = False, content = []\<rparr> \<and>
      getStream streamStore2 ''id2'' =
        Some \<lparr>streamId = ''id2'', msgid = Some ''m2'', createdAt = 500000, updatedAt = 500000,
              started = False, finished = False, content = []\<rparr>"
    by (simp add: streamStore2_eq getStreamByMsgId_def getStream_def)
  from prune_index_references_live_streams [OF inv, of 661000 "''m1''"] g
  have m1: "getStreamByMsgId (pruneStreams 661000 streamStore2) ''m1'' = None"
    by (simp add: STREAM_TTL_MS_def)
  from prune_index_references_live_streams [OF inv, of 661000 "''m2''"] p
  have m2: "getStream (prune 661000 streamStore2) ''id2'' \<noteq> None"
    by simp
  from p have "getStreamByMsgId (prune 661000 streamStore2) ''m2'' = Some ''id2''"
    by (simp add: getStreamByMsgId_def)
  with inv p m1 m2 show ?thesis by simp
qed

section \<open>The invariant holds in every reachable state\<close>

lemma timersInv_iff:
  assumes "distinct (map fst (pendingInbounds st))" and "distinct (map fst (timers st))"
  shows "timersInv st \<longleftrightarrow>
    (\<forall>k p. map_of (pendingInbounds st) k = Some p \<longrightarrow>
       (\<exists>h t. timeout p = Some h \<and> map_of (timers st) h = Some t \<and> t_key t = k)) \<and>
    (\<forall>h t. map_of (timers st) h = Some t \<longrightarrow>
       h < nextTimer st \<and>
       (\<exists>p. map_of (pendingInbounds st) (t_key t) = Some p \<and> timeout p = Some h))"
proof -
  have a: "\<And>k p. (k, p) \<in> set (pendingInbounds st) \<longleftrightarrow> map_of (pendingInbounds st) k = Some p"
    using assms(1) by simp
  have b: "\<And>h t. (h, t) \<in> set (timers st) \<longleftrightarrow> map_of (timers st) h = Some t"
    using assms(2) by simp
  have 1: "(\<forall>(k, p) \<in> set (pendingInbounds st).
        map_option t_key (Option.bind (timeout p) (map_of (timers st))) = Some k) \<longleftrightarrow>
     (\<forall>k p. map_of (pendingInbounds st) k = Some p \<longrightarrow>
       (\<exists>h t. timeout p = Some h \<and> map_of (timers st) h = Some t \<and> t_key t = k))"
    unfolding a [symmetric] by (fastforce simp: bind_eq_Some_conv)
  have 2: "(\<forall>(h, t) \<in> set (timers st).
        h < nextTimer st \<and>
        Option.bind (map_of (pendingInbounds st) (t_key t)) timeout = Some h) \<longleftrightarrow>
     (\<forall>h t. map_of (timers st) h = Some t \<longrightarrow>
       h < nextTimer st \<and>
       (\<exists>p. map_of (pendingInbounds st) (t_key t) = Some p \<and> timeout p = Some h))"
    unfolding b [symmetric] by (fastforce simp: bind_eq_Some_conv)
  show ?thesis unfolding timersInv_def 1 2 ..
qed

lemma storeInv_new: "storeInv new_StreamStore"
  by (simp add: storeInv_def timersInv_def new_StreamStore_def)

lemma storeInv_setFlushHandler: "storeInv st \<Longrightarrow> storeInv (setFlushHandler handler st)"
  by (simp add: storeInv_def timersInv_def setFlushHandler_def)

lemma storeInv_createStream:
  "storeInv st \<Longrightarrow> storeInv (snd (createStream params_msgid freshId now st))"
  by (auto simp: storeInv_def timersInv_def createStream_def Let_def distinct_update dom_update
      split: option.splits)

lemma storeInv_updateStream: "storeInv st \<Longrightarrow> storeInv (updateStream sid mutator now st)"
  by (auto simp: storeInv_def timersInv_def updateStream_def distinct_update split: option.splits)


lemma storeInv_maps:
  assumes "storeInv st"
  shows "distinct (map fst (pendingInbounds st))" and "distinct (map fst (timers st))"
    and "\<And>k p. map_of (pendingInbounds st) k = Some p \<Longrightarrow>
           \<exists>h t. timeout p = Some h \<and> map_of (timers st) h = Some t \<and> t_key t = k"
    and "\<And>h t. map_of (timers st) h = Some t \<Longrightarrow>
           h < nextTimer st \<and>
           (\<exists>p. map_of (pendingInbounds st) (t_key t) = Some p \<and> timeout p = Some h)"
proof -
  from assms show d1: "distinct (map fst (pendingInbounds st))"
    and d2: "distinct (map fst (timers st))"
    by (simp_all add: storeInv_def)
  from assms have "timersInv st" by (simp add: storeInv_def)
  then have t: "(\<forall>k p. map_of (pendingInbounds st) k = Some p \<longrightarrow>
       (\<exists>h t. timeout p = Some h \<and> map_of (timers st) h = Some t \<and> t_key t = k)) \<and>
    (\<forall>h t. map_of (timers st) h = Some t \<longrightarrow>
       h < nextTimer st \<and>
       (\<exists>p. map_of (pendingInbounds st) (t_key t) = Some p \<and> timeout p = Some h))"
    using timersInv_iff [OF d1 d2] by simp
  from t show "\<And>k p. map_of (pendingInbounds st) k = Some p \<Longrightarrow>
           \<exists>h t. timeout p = Some h \<and> map_of (timers st) h = Some t \<and> t_key t = k"
    by blast
  from t show "\<And>h t. map_of (timers st) h = Some t \<Longrightarrow>
           h < nextTimer st \<and>
           (\<exists>p. map_of (pendingInbounds st) (t_key t) = Some p \<and> timeout p = Some h)"
    by blast
qed

lemma storeInvI:
  assumes "distinct (map fst (streams st))" and "distinct (map fst (msgidToStreamId st))"
    and "distinct (map fst (pendingInbounds st))" and "distinct (map fst (timers st))"
    and "[] \<notin> set (map fst (msgidToStreamId st))"
    and "\<And>k p. map_of (pendingInbounds st) k = Some p \<Longrightarrow>
           \<exists>h t. timeout p = Some h \<and> map_of (timers st) h = Some t \<and> t_key t = k"
    and "\<And>h t. map_of (timers st) h = Some t \<Longrightarrow>
           h < nextTimer st \<and>
           (\<exists>p. map_of (pendingInbounds st) (t_key t) = Some p \<and> timeout p = Some h)"
  shows "storeInv st"
proof -
  have "timersInv st"
    using timersInv_iff [OF assms(3) assms(4)] assms(6) assms(7) by blast
  with assms(1-5) show ?thesis by (simp add: storeInv_def)
qed

lemma flushPending_absent:
  "map_of (pendingInbounds st) k = None \<Longrightarrow> flushPending k st = st"
  by (simp add: flushPending_def)

lemma flushPending_fields:
  assumes "map_of (pendingInbounds st) k = Some p" and "timeout p = Some h"
  shows "streams (flushPending k st) = streams st"
    and "msgidToStreamId (flushPending k st) = msgidToStreamId st"
    and "onFlush (flushPending k st) = onFlush st"
    and "nextTimer (flushPending k st) = nextTimer st"
    and "pendingInbounds (flushPending k st) = AList.delete k (pendingInbounds st)"
    and "timers (flushPending k st) = AList.delete h (timers st)"
    and "flushCalls (flushPending k st) =
           (case onFlush st of
              Some handler \<Rightarrow> flushCalls st @ [(handler, p\<lparr>timeout := None\<rparr>)]
            | None \<Rightarrow> flushCalls st)"
  using assms
  by (simp_all add: flushPending_def clearTimeout_def Let_def split: option.splits)

lemma storeInv_flushPending:
  assumes "storeInv st"
  shows "storeInv (flushPending k st)"
proof (cases "map_of (pendingInbounds st) k")
  case None
  with assms show ?thesis by (simp add: flushPending_absent)
next
  case (Some p)
  note m = storeInv_maps [OF assms]
  from m(3) [OF Some] obtain h t where h: "timeout p = Some h" "map_of (timers st) h = Some t"
      "t_key t = k"
    by blast
  note f = flushPending_fields [OF Some h(1)]
  show ?thesis
  proof (rule storeInvI)
    show "distinct (map fst (streams (flushPending k st)))"
      and "distinct (map fst (msgidToStreamId (flushPending k st)))"
      and "[] \<notin> set (map fst (msgidToStreamId (flushPending k st)))"
      using assms by (simp_all add: f storeInv_def)
    show "distinct (map fst (pendingInbounds (flushPending k st)))"
      using m(1) by (simp add: f distinct_delete)
    show "distinct (map fst (timers (flushPending k st)))"
      using m(2) by (simp add: f distinct_delete)
  next
    fix k' p'
    assume "map_of (pendingInbounds (flushPending k st)) k' = Some p'"
    then have a: "k' \<noteq> k" "map_of (pendingInbounds st) k' = Some p'"
      by (auto simp: f delete_conv' split: if_splits)
    from m(3) [OF a(2)] obtain h' t' where h': "timeout p' = Some h'"
        "map_of (timers st) h' = Some t'" "t_key t' = k'"
      by blast
    with h a have "h' \<noteq> h" by auto
    with h' show "\<exists>h t. timeout p' = Some h \<and> map_of (timers (flushPending k st)) h = Some t \<and>
        t_key t = k'"
      by (simp add: f delete_conv')
  next
    fix h' t'
    assume "map_of (timers (flushPending k st)) h' = Some t'"
    then have a: "h' \<noteq> h" "map_of (timers st) h' = Some t'"
      by (auto simp: f delete_conv' split: if_splits)
    from m(4) [OF a(2)] obtain p' where p': "h' < nextTimer st"
        "map_of (pendingInbounds st) (t_key t') = Some p'" "timeout p' = Some h'"
      by blast
    with Some h a have "t_key t' \<noteq> k" by auto
    with p' show "h' < nextTimer (flushPending k st) \<and>
        (\<exists>p. map_of (pendingInbounds (flushPending k st)) (t_key t') = Some p \<and>
             timeout p = Some h')"
      by (simp add: f delete_conv')
  qed
qed

lemma fireTimer_eq_flushPending:
  assumes "storeInv st" and "map_of (timers st) h = Some t"
  shows "fireTimer h st = flushPending (t_key t) st"
proof -
  note m = storeInv_maps [OF assms(1)]
  from m(4) [OF assms(2)] obtain p where p: "map_of (pendingInbounds st) (t_key t) = Some p"
      "timeout p = Some h"
    by blast
  then show ?thesis
    using assms(2)
    by (simp add: fireTimer_def flushPending_def clearTimeout_def Let_def delete_idem
        split: option.splits)
qed

lemma storeInv_fireTimer:
  assumes "storeInv st"
  shows "storeInv (fireTimer h st)"
proof (cases "map_of (timers st) h")
  case None
  with assms show ?thesis by (simp add: fireTimer_def)
next
  case (Some t)
  with assms show ?thesis
    by (simp add: fireTimer_eq_flushPending storeInv_flushPending)
qed


lemma addPendingMessage_existing:
  assumes "map_of (pendingInbounds st) (pendingKey params) = Some existing"
  shows "fst (addPendingMessage params freshId now st) = (p_streamId existing, False)"
    and "streams (snd (addPendingMessage params freshId now st)) = streams st"
    and "msgidToStreamId (snd (addPendingMessage params freshId now st)) = msgidToStreamId st"
    and "onFlush (snd (addPendingMessage params freshId now st)) = onFlush st"
    and "flushCalls (snd (addPendingMessage params freshId now st)) = flushCalls st"
    and "nextTimer (snd (addPendingMessage params freshId now st)) = Suc (nextTimer st)"
    and "timers (snd (addPendingMessage params freshId now st)) =
           AList.update (nextTimer st)
             \<lparr>t_key = pendingKey params, t_setAt = now,
              t_delay = (case debounceMs params of Some d \<Rightarrow> d | None \<Rightarrow> DEFAULT_DEBOUNCE_MS)\<rparr>
             (case timeout existing of Some h \<Rightarrow> AList.delete h (timers st) | None \<Rightarrow> timers st)"
    and "pendingInbounds (snd (addPendingMessage params freshId now st)) =
           AList.update (pendingKey params)
             (existing\<lparr>contents := contents existing @ [msgContent params],
                       msgids := msgids existing @
                         (case m_msgid (msg params) of
                            Some m \<Rightarrow> if m \<noteq> [] then [m] else []
                          | None \<Rightarrow> []),
                       timeout := Some (nextTimer st)\<rparr>)
             (pendingInbounds st)"
  using assms
  by (simp_all add: addPendingMessage_def setTimeout_def clearTimeout_def Let_def
      split: option.splits)

lemma addPendingMessage_new:
  assumes "map_of (pendingInbounds st) (pendingKey params) = None"
  shows "fst (addPendingMessage params freshId now st) = (freshId, True)"
    and "streams (snd (addPendingMessage params freshId now st)) =
           streams (snd (createStream (m_msgid (msg params)) freshId now st))"
    and "msgidToStreamId (snd (addPendingMessage params freshId now st)) =
           msgidToStreamId (snd (createStream (m_msgid (msg params)) freshId now st))"
    and "onFlush (snd (addPendingMessage params freshId now st)) = onFlush st"
    and "flushCalls (snd (addPendingMessage params freshId now st)) = flushCalls st"
    and "nextTimer (snd (addPendingMessage params freshId now st)) = Suc (nextTimer st)"
    and "timers (snd (addPendingMessage params freshId now st)) =
           AList.update (nextTimer st)
             \<lparr>t_key = pendingKey params, t_setAt = now,
              t_delay = (case debounceMs params of Some d \<Rightarrow> d | None \<Rightarrow> DEFAULT_DEBOUNCE_MS)\<rparr>
             (timers st)"
    and "pendingInbounds (snd (addPendingMessage params freshId now st)) =
           AList.update (pendingKey params)
             \<lparr>p_streamId = freshId, p_target = target params, p_msg = msg params,
              contents = [msgContent params],
              msgids = (case m_msgid (msg params) of
                          Some m \<Rightarrow> if m \<noteq> [] then [m] else []
                        | None \<Rightarrow> []),
              p_nonce = nonce params, p_timestamp = timestamp params,
              p_createdAt = now, timeout = Some (nextTimer st)\<rparr>
             (pendingInbounds st)"
  using assms
  by (simp_all add: addPendingMessage_def setTimeout_def createStream_def Let_def
      split: option.splits)


lemma storeInv_addPendingMessage:
  assumes "storeInv st"
  shows "storeInv (snd (addPendingMessage params freshId now st))"
proof -
  let ?st' = "snd (addPendingMessage params freshId now st)"
  let ?k = "pendingKey params"
  let ?n = "nextTimer st"
  note m = storeInv_maps [OF assms]
  have cs: "storeInv (snd (createStream (m_msgid (msg params)) freshId now st))"
    using assms by (rule storeInv_createStream)
  show ?thesis
  proof (cases "map_of (pendingInbounds st) ?k")
    case None
    note f = addPendingMessage_new [OF None, of freshId now]
    show ?thesis
    proof (rule storeInvI)
      show "distinct (map fst (streams ?st'))"
        and "distinct (map fst (msgidToStreamId ?st'))"
        and "[] \<notin> set (map fst (msgidToStreamId ?st'))"
        using cs by (simp_all add: f(2,3) storeInv_def)
      show "distinct (map fst (pendingInbounds ?st'))"
        using m(1) by (simp add: f(8) distinct_update)
      show "distinct (map fst (timers ?st'))"
        using m(2) by (simp add: f(7) distinct_update)
    next
      fix k' p'
      assume a: "map_of (pendingInbounds ?st') k' = Some p'"
      show "\<exists>h t. timeout p' = Some h \<and> map_of (timers ?st') h = Some t \<and> t_key t = k'"
      proof (cases "k' = ?k")
        case True
        with a show ?thesis by (auto simp: f(7,8) update_conv')
      next
        case False
        with a have "map_of (pendingInbounds st) k' = Some p'"
          by (simp add: f(8) update_conv')
        from m(3) [OF this] obtain h' t' where h': "timeout p' = Some h'"
            "map_of (timers st) h' = Some t'" "t_key t' = k'"
          by blast
        from m(4) [OF h'(2)] have "h' \<noteq> ?n" by auto
        with h' show ?thesis by (simp add: f(7) update_conv')
      qed
    next
      fix h' t'
      assume a: "map_of (timers ?st') h' = Some t'"
      show "h' < nextTimer ?st' \<and>
          (\<exists>p. map_of (pendingInbounds ?st') (t_key t') = Some p \<and> timeout p = Some h')"
      proof (cases "h' = ?n")
        case True
        with a show ?thesis by (auto simp: f(6,7,8) update_conv')
      next
        case False
        with a have b: "map_of (timers st) h' = Some t'"
          by (simp add: f(7) update_conv')
        from m(4) [OF b] obtain p' where p': "h' < ?n"
            "map_of (pendingInbounds st) (t_key t') = Some p'" "timeout p' = Some h'"
          by blast
        with None have "t_key t' \<noteq> ?k" by auto
        with p' show ?thesis by (simp add: f(6,8) update_conv')
      qed
    qed
  next
    case (Some existing)
    from m(3) [OF Some] obtain h t where h: "timeout existing = Some h"
        "map_of (timers st) h = Some t" "t_key t = ?k"
      by blast
    note f = addPendingMessage_existing [OF Some, of freshId now]
    have tm: "timers ?st' =
        AList.update ?n
          \<lparr>t_key = ?k, t_setAt = now,
           t_delay = (case debounceMs params of Some d \<Rightarrow> d | None \<Rightarrow> DEFAULT_DEBOUNCE_MS)\<rparr>
          (AList.delete h (timers st))"
      by (simp add: f(7) h(1))
    show ?thesis
    proof (rule storeInvI)
      show "distinct (map fst (streams ?st'))"
        and "distinct (map fst (msgidToStreamId ?st'))"
        and "[] \<notin> set (map fst (msgidToStreamId ?st'))"
        using assms by (simp_all add: f(2,3) storeInv_def)
      show "distinct (map fst (pendingInbounds ?st'))"
        using m(1) by (simp add: f(8) distinct_update)
      show "distinct (map fst (timers ?st'))"
        using m(2) by (simp add: tm distinct_update distinct_delete)
    next
      fix k' p'
      assume a: "map_of (pendingInbounds ?st') k' = Some p'"
      show "\<exists>h t. timeout p' = Some h \<and> map_of (timers ?st') h = Some t \<and> t_key t = k'"
      proof (cases "k' = ?k")
        case True
        with a show ?thesis by (auto simp: tm f(8) update_conv')
      next
        case False
        with a have "map_of (pendingInbounds st) k' = Some p'"
          by (simp add: f(8) update_conv')
        from m(3) [OF this] obtain h' t' where h': "timeout p' = Some h'"
            "map_of (timers st) h' = Some t'" "t_key t' = k'"
          by blast
        from m(4) [OF h'(2)] have "h' \<noteq> ?n" by auto
        moreover from h h' False have "h' \<noteq> h" by auto
        ultimately show ?thesis using h' by (simp add: tm update_conv' delete_conv')
      qed
    next
      fix h' t'
      assume a: "map_of (timers ?st') h' = Some t'"
      show "h' < nextTimer ?st' \<and>
          (\<exists>p. map_of (pendingInbounds ?st') (t_key t') = Some p \<and> timeout p = Some h')"
      proof (cases "h' = ?n")
        case True
        with a show ?thesis by (auto simp: f(6,8) tm update_conv')
      next
        case False
        with a have b: "h' \<noteq> h" "map_of (timers st) h' = Some t'"
          by (auto simp: tm update_conv' delete_conv' split: if_splits)
        from m(4) [OF b(2)] obtain p' where p': "h' < ?n"
            "map_of (pendingInbounds st) (t_key t') = Some p'" "timeout p' = Some h'"
          by blast
        with Some h b have "t_key t' \<noteq> ?k" by auto
        with p' show ?thesis by (simp add: f(6,8) update_conv')
      qed
    qed
  qed
qed


lemma prune_fields:
  "pendingInbounds (prune now st) =
     AList.restrict
       (- {k. \<exists>p. (k, p) \<in> set (pendingInbounds st) \<and> now - p_createdAt p > STREAM_TTL_MS})
       (pendingInbounds st)"
  "timers (prune now st) =
     AList.restrict
       (- {h. \<exists>k p. (k, p) \<in> set (pendingInbounds st) \<and>
                now - p_createdAt p > STREAM_TTL_MS \<and> timeout p = Some h})
       (timers st)"
  "nextTimer (prune now st) = nextTimer st"
  "onFlush (prune now st) = onFlush st"
  "flushCalls (prune now st) = flushCalls st"
  by (simp_all add: prune_def prunePending_def pruneIndex_def pruneStreams_def
      fold_prunePendingStep_pending fold_prunePendingStep_timers fold_prunePendingStep_rest
      fold_pruneIndexStep_rest fold_pruneStreamStep_rest)

lemma storeInv_prune:
  assumes "storeInv st"
  shows "storeInv (prune now st)"
proof -
  let ?st' = "prune now st"
  define K where "K = {k. \<exists>p. (k, p) \<in> set (pendingInbounds st) \<and>
      now - p_createdAt p > STREAM_TTL_MS}"
  define H where "H = {h. \<exists>k p. (k, p) \<in> set (pendingInbounds st) \<and>
      now - p_createdAt p > STREAM_TTL_MS \<and> timeout p = Some h}"
  note m = storeInv_maps [OF assms]
  have pe: "pendingInbounds ?st' = AList.restrict (- K) (pendingInbounds st)"
    unfolding K_def by (rule prune_fields)
  have ti: "timers ?st' = AList.restrict (- H) (timers st)"
    unfolding H_def by (rule prune_fields)
  have mem: "\<And>k p. (k, p) \<in> set (pendingInbounds st) \<longleftrightarrow> map_of (pendingInbounds st) k = Some p"
    using m(1) by simp
  have Kiff: "\<And>k. k \<in> K \<longleftrightarrow>
      (\<exists>p. map_of (pendingInbounds st) k = Some p \<and> now - p_createdAt p > STREAM_TTL_MS)"
    by (simp add: K_def mem)
  have Hiff: "\<And>h. h \<in> H \<longleftrightarrow>
      (\<exists>k p. map_of (pendingInbounds st) k = Some p \<and> now - p_createdAt p > STREAM_TTL_MS \<and>
         timeout p = Some h)"
    by (simp add: H_def mem)
  show ?thesis
  proof (rule storeInvI)
    show "distinct (map fst (streams ?st'))"
      using assms by (simp add: prune_streams distinct_restr storeInv_def)
    have "distinct (map fst (msgidToStreamId (pruneStreams now st)))"
      using assms by (simp add: storeInv_def pruneStreams_distinct_index)
    then show "distinct (map fst (msgidToStreamId ?st'))"
      by (simp add: prune_index pruneIndex_index distinct_restr)
    have "fst ` set (msgidToStreamId ?st') \<subseteq> fst ` set (msgidToStreamId st)"
      by (auto simp: prune_index pruneIndex_index pruneStreams_index)
    then show "[] \<notin> set (map fst (msgidToStreamId ?st'))"
      using assms by (auto simp: storeInv_def)
    show "distinct (map fst (pendingInbounds ?st'))"
      using m(1) by (simp add: pe distinct_restr)
    show "distinct (map fst (timers ?st'))"
      using m(2) by (simp add: ti distinct_restr)
  next
    fix k p
    assume "map_of (pendingInbounds ?st') k = Some p"
    then have a: "k \<notin> K" "map_of (pendingInbounds st) k = Some p"
      by (auto simp: pe restr_conv' restrict_map_def split: if_splits)
    from m(3) [OF a(2)] obtain h t where h: "timeout p = Some h" "map_of (timers st) h = Some t"
        "t_key t = k"
      by blast
    have "h \<notin> H"
    proof
      assume "h \<in> H"
      then obtain k' p' where p': "map_of (pendingInbounds st) k' = Some p'"
          "now - p_createdAt p' > STREAM_TTL_MS" "timeout p' = Some h"
        using Hiff by blast
      from m(3) [OF p'(1)] p'(3) h have "k' = k" by auto
      with p' a show False by (auto simp: Kiff)
    qed
    with h show "\<exists>h t. timeout p = Some h \<and> map_of (timers ?st') h = Some t \<and> t_key t = k"
      by (simp add: ti restr_conv' restrict_map_def)
  next
    fix h t
    assume "map_of (timers ?st') h = Some t"
    then have a: "h \<notin> H" "map_of (timers st) h = Some t"
      by (auto simp: ti restr_conv' restrict_map_def split: if_splits)
    from m(4) [OF a(2)] obtain p where p: "h < nextTimer st"
        "map_of (pendingInbounds st) (t_key t) = Some p" "timeout p = Some h"
      by blast
    have "t_key t \<notin> K"
    proof
      assume "t_key t \<in> K"
      with p have "now - p_createdAt p > STREAM_TTL_MS" by (auto simp: Kiff)
      with p have "h \<in> H" using Hiff by blast
      with a show False by simp
    qed
    with p show "h < nextTimer ?st' \<and>
        (\<exists>p. map_of (pendingInbounds ?st') (t_key t) = Some p \<and> timeout p = Some h)"
      by (simp add: pe prune_fields(3) restr_conv' restrict_map_def)
  qed
qed

lemma reachableStore_storeInv: "reachableStore st \<Longrightarrow> storeInv st"
  by (induction rule: reachableStore.induct)
     (simp_all add: storeInv_new storeInv_setFlushHandler storeInv_createStream
        storeInv_updateStream storeInv_addPendingMessage storeInv_fireTimer storeInv_prune)


section \<open>Properties of the debounce aggregator\<close>

lemma addPendingMessages_Cons:
  "addPendingMessages ((params, freshId, now) # rest) st =
     (fst (addPendingMessage params freshId now st) #
        fst (addPendingMessages rest (snd (addPendingMessage params freshId now st))),
      snd (addPendingMessages rest (snd (addPendingMessage params freshId now st))))"
  by (simp add: addPendingMessages.simps(2) split: prod.splits)

declare addPendingMessages.simps(2) [simp del]

lemma storeInv_addPendingMessages:
  "storeInv st \<Longrightarrow> storeInv (snd (addPendingMessages arrivals st))"
proof (induction arrivals arbitrary: st)
  case Nil
  then show ?case by simp
next
  case (Cons a arrivals)
  obtain params freshId now where a: "a = (params, freshId, now)" by (cases a)
  have "storeInv (snd (addPendingMessage params freshId now st))"
    using Cons.prems by (rule storeInv_addPendingMessage)
  from Cons.IH [OF this] show ?case
    by (simp only: a addPendingMessages_Cons snd_conv)
qed

lemma addPendingMessages_existing:
  assumes "\<forall>a \<in> set arrivals. pendingKey (fst a) = k"
    and "map_of (pendingInbounds st) k = Some p"
  shows "map snd (fst (addPendingMessages arrivals st)) = replicate (length arrivals) False \<and>
     map fst (fst (addPendingMessages arrivals st)) = replicate (length arrivals) (p_streamId p) \<and>
     onFlush (snd (addPendingMessages arrivals st)) = onFlush st \<and>
     flushCalls (snd (addPendingMessages arrivals st)) = flushCalls st \<and>
     (\<exists>p'. map_of (pendingInbounds (snd (addPendingMessages arrivals st))) k = Some p' \<and>
        contents p' = contents p @ map (\<lambda>a. msgContent (fst a)) arrivals \<and>
        p_streamId p' = p_streamId p \<and> p_target p' = p_target p \<and> p_msg p' = p_msg p \<and>
        p_nonce p' = p_nonce p \<and> p_timestamp p' = p_timestamp p \<and>
        p_createdAt p' = p_createdAt p)"
  using assms
proof (induction arrivals arbitrary: st p)
  case Nil
  then show ?case by simp
next
  case (Cons a arrivals)
  obtain params freshId now where a: "a = (params, freshId, now)" by (cases a)
  from Cons.prems(1) have key: "pendingKey params = k" and
    rest: "\<forall>a \<in> set arrivals. pendingKey (fst a) = k"
    by (simp_all add: a)
  let ?st1 = "snd (addPendingMessage params freshId now st)"
  let ?p1 = "p\<lparr>contents := contents p @ [msgContent params],
               msgids := msgids p @
                 (case m_msgid (msg params) of
                    Some m \<Rightarrow> if m \<noteq> [] then [m] else []
                  | None \<Rightarrow> []),
               timeout := Some (nextTimer st)\<rparr>"
  from Cons.prems(2) key have ex: "map_of (pendingInbounds st) (pendingKey params) = Some p"
    by simp
  note f = addPendingMessage_existing [OF ex, of freshId now]
  have p1: "map_of (pendingInbounds ?st1) k = Some ?p1"
    by (simp add: f(8) update_conv' key)
  note ih = Cons.IH [OF rest p1]
  from ih obtain p' where p': "map_of (pendingInbounds (snd (addPendingMessages arrivals ?st1))) k
        = Some p'"
      "contents p' = contents ?p1 @ map (\<lambda>a. msgContent (fst a)) arrivals"
      "p_streamId p' = p_streamId ?p1" "p_target p' = p_target ?p1" "p_msg p' = p_msg ?p1"
      "p_nonce p' = p_nonce ?p1" "p_timestamp p' = p_timestamp ?p1"
      "p_createdAt p' = p_createdAt ?p1"
    by blast
  have "\<exists>p'. map_of (pendingInbounds (snd (addPendingMessages (a # arrivals) st))) k = Some p' \<and>
        contents p' = contents p @ map (\<lambda>a. msgContent (fst a)) (a # arrivals) \<and>
        p_streamId p' = p_streamId p \<and> p_target p' = p_target p \<and> p_msg p' = p_msg p \<and>
        p_nonce p' = p_nonce p \<and> p_timestamp p' = p_timestamp p \<and>
        p_createdAt p' = p_createdAt p"
    using p' by (simp add: addPendingMessages_Cons a)
  moreover from ih have "map snd (fst (addPendingMessages (a # arrivals) st)) =
      replicate (length (a # arrivals)) False"
    by (simp add: addPendingMessages_Cons a f(1))
  moreover from ih have "map fst (fst (addPendingMessages (a # arrivals) st)) =
      replicate (length (a # arrivals)) (p_streamId p)"
    by (simp add: addPendingMessages_Cons a f(1))
  moreover from ih have "onFlush (snd (addPendingMessages (a # arrivals) st)) = onFlush st"
    by (simp add: addPendingMessages_Cons a f(4))
  moreover from ih have "flushCalls (snd (addPendingMessages (a # arrivals) st)) = flushCalls st"
    by (simp add: addPendingMessages_Cons a f(5))
  ultimately show ?case by blast
qed


lemma store0_eq:
  "store0 =
     \<lparr>streams = [], msgidToStreamId = [], pendingInbounds = [], onFlush = Some 7,
      timers = [], nextTimer = 0, flushCalls = []\<rparr>"
  by (simp add: store0_def setFlushHandler_def emptyStore_def new_StreamStore_def)

lemma pendingStore1_eq:
  "pendingStore1 =
     \<lparr>streams = [(''id1'', \<lparr>streamId = ''id1'', msgid = Some ''m1'', createdAt = 1000,
                  updatedAt = 1000, started = False, finished = False, content = []\<rparr>)],
      msgidToStreamId = [(''m1'', ''id1'')],
      pendingInbounds =
        [(''u1'', \<lparr>p_streamId = ''id1'', p_target = (),
                  p_msg = \<lparr>m_msgid = Some ''m1'', m_rest = ()\<rparr>, contents = [''hello''],
                  msgids = [''m1''], p_nonce = ''n1'', p_timestamp = ''t1'', p_createdAt = 1000,
                  timeout = Some 0\<rparr>)],
      onFlush = Some 7,
      timers = [(0, \<lparr>t_key = ''u1'', t_setAt = 1000, t_delay = 500\<rparr>)],
      nextTimer = Suc 0, flushCalls = []\<rparr>"
  by (simp add: pendingStore1_def store0_eq arrivalHello_def addPendingMessage_def
      createStream_def setTimeout_def)

lemma storeInv_store0: "storeInv store0"
  unfolding store0_def emptyStore_def
  by (intro storeInv_setFlushHandler storeInv_new)

lemma storeInv_pendingStore1: "storeInv pendingStore1"
  unfolding pendingStore1_def
  by (intro storeInv_addPendingMessage storeInv_store0)

lemma storeInv_pendingStore2: "storeInv pendingStore2"
  unfolding pendingStore2_def
  by (intro storeInv_addPendingMessage storeInv_pendingStore1)

text \<open>
  C2. In a store that satisfies the invariant, \<^verbatim>\<open>addPendingMessage\<close> with grouping key
  \<open>k\<close> does one of two things. If a group exists for \<open>k\<close>: the result is the group's
  stream id with \<^verbatim>\<open>isNew = false\<close>; the group's fragment sequence gets the new fragment
  at its end; its id sequence gets the message id at its end if and only if the
  message carries one (an id that is present and not empty, the test the source makes);
  the group's old timer leaves the timer table and the group's timer becomes the new
  handle; streams and index are unchanged. If no group exists for \<open>k\<close>: the stream map
  and the index are those \<^verbatim>\<open>createStream\<close> produces for the message id and the drawn
  identifier, the new stream is stored under it, the result is that identifier with
  \<^verbatim>\<open>isNew = true\<close>, and the new group holds exactly the one fragment. In both cases a
  timer for \<open>k\<close> is registered at the call time with the debounce delay (500 ms when
  none is given), the groups of other keys are unchanged and the flush handler is not
  invoked.
\<close>

theorem addPendingMessage_extends_or_creates:
  assumes "storeInv st"
  shows "(\<forall>existing. map_of (pendingInbounds st) (pendingKey params) = Some existing \<longrightarrow>
       fst (addPendingMessage params freshId now st) = (p_streamId existing, False) \<and>
       map_of (pendingInbounds (snd (addPendingMessage params freshId now st))) (pendingKey params) =
         Some (existing\<lparr>contents := contents existing @ [msgContent params],
                 msgids := msgids existing @
                   (case m_msgid (msg params) of
                      Some m \<Rightarrow> if m \<noteq> [] then [m] else []
                    | None \<Rightarrow> []),
                 timeout := Some (nextTimer st)\<rparr>) \<and>
       (\<exists>h. timeout existing = Some h \<and> map_of (timers st) h \<noteq> None \<and>
            map_of (timers (snd (addPendingMessage params freshId now st))) h = None) \<and>
       streams (snd (addPendingMessage params freshId now st)) = streams st \<and>
       msgidToStreamId (snd (addPendingMessage params freshId now st)) = msgidToStreamId st) \<and>
     (map_of (pendingInbounds st) (pendingKey params) = None \<longrightarrow>
       fst (addPendingMessage params freshId now st) = (freshId, True) \<and>
       streams (snd (addPendingMessage params freshId now st)) =
         streams (snd (createStream (m_msgid (msg params)) freshId now st)) \<and>
       msgidToStreamId (snd (addPendingMessage params freshId now st)) =
         msgidToStreamId (snd (createStream (m_msgid (msg params)) freshId now st)) \<and>
       getStream (snd (addPendingMessage params freshId now st)) freshId =
         Some \<lparr>streamId = freshId, msgid = m_msgid (msg params), createdAt = now,
               updatedAt = now, started = False, finished = False, content = []\<rparr> \<and>
       map_of (pendingInbounds (snd (addPendingMessage params freshId now st))) (pendingKey params) =
         Some \<lparr>p_streamId = freshId, p_target = target params, p_msg = msg params,
               contents = [msgContent params],
               msgids = (case m_msgid (msg params) of
                           Some m \<Rightarrow> if m \<noteq> [] then [m] else []
                         | None \<Rightarrow> []),
               p_nonce = nonce params, p_timestamp = timestamp params,
               p_createdAt = now, timeout = Some (nextTimer st)\<rparr>) \<and>
     map_of (timers (snd (addPendingMessage params freshId now st))) (nextTimer st) =
       Some \<lparr>t_key = pendingKey params, t_setAt = now,
             t_delay = (case debounceMs params of Some d \<Rightarrow> d | None \<Rightarrow> DEFAULT_DEBOUNCE_MS)\<rparr> \<and>
     (\<forall>k'. k' \<noteq> pendingKey params \<longrightarrow>
        map_of (pendingInbounds (snd (addPendingMessage params freshId now st))) k' =
          map_of (pendingInbounds st) k') \<and>
     flushCalls (snd (addPendingMessage params freshId now st)) = flushCalls st \<and>
     DEFAULT_DEBOUNCE_MS = 500"
proof -
  let ?st' = "snd (addPendingMessage params freshId now st)"
  note m = storeInv_maps [OF assms]
  have ex: "\<forall>existing. map_of (pendingInbounds st) (pendingKey params) = Some existing \<longrightarrow>
       fst (addPendingMessage params freshId now st) = (p_streamId existing, False) \<and>
       map_of (pendingInbounds ?st') (pendingKey params) =
         Some (existing\<lparr>contents := contents existing @ [msgContent params],
                 msgids := msgids existing @
                   (case m_msgid (msg params) of
                      Some m \<Rightarrow> if m \<noteq> [] then [m] else []
                    | None \<Rightarrow> []),
                 timeout := Some (nextTimer st)\<rparr>) \<and>
       (\<exists>h. timeout existing = Some h \<and> map_of (timers st) h \<noteq> None \<and>
            map_of (timers ?st') h = None) \<and>
       streams ?st' = streams st \<and> msgidToStreamId ?st' = msgidToStreamId st"
  proof (intro allI impI)
    fix existing
    assume e: "map_of (pendingInbounds st) (pendingKey params) = Some existing"
    note f = addPendingMessage_existing [OF e, of freshId now]
    from m(3) [OF e] obtain h t where h: "timeout existing = Some h"
        "map_of (timers st) h = Some t"
      by blast
    from m(4) [OF h(2)] have "h \<noteq> nextTimer st" by auto
    with h have "timeout existing = Some h \<and> map_of (timers st) h \<noteq> None \<and>
        map_of (timers ?st') h = None"
      by (simp add: f(7) update_conv' delete_conv')
    then have "\<exists>h. timeout existing = Some h \<and> map_of (timers st) h \<noteq> None \<and>
        map_of (timers ?st') h = None" ..
    then show "fst (addPendingMessage params freshId now st) = (p_streamId existing, False) \<and>
       map_of (pendingInbounds ?st') (pendingKey params) =
         Some (existing\<lparr>contents := contents existing @ [msgContent params],
                 msgids := msgids existing @
                   (case m_msgid (msg params) of
                      Some m \<Rightarrow> if m \<noteq> [] then [m] else []
                    | None \<Rightarrow> []),
                 timeout := Some (nextTimer st)\<rparr>) \<and>
       (\<exists>h. timeout existing = Some h \<and> map_of (timers st) h \<noteq> None \<and>
            map_of (timers ?st') h = None) \<and>
       streams ?st' = streams st \<and> msgidToStreamId ?st' = msgidToStreamId st"
      by (simp add: f(1,2,3,8) update_conv')
  qed
  have new: "map_of (pendingInbounds st) (pendingKey params) = None \<longrightarrow>
       fst (addPendingMessage params freshId now st) = (freshId, True) \<and>
       streams ?st' = streams (snd (createStream (m_msgid (msg params)) freshId now st)) \<and>
       msgidToStreamId ?st' =
         msgidToStreamId (snd (createStream (m_msgid (msg params)) freshId now st)) \<and>
       getStream ?st' freshId =
         Some \<lparr>streamId = freshId, msgid = m_msgid (msg params), createdAt = now,
               updatedAt = now, started = False, finished = False, content = []\<rparr> \<and>
       map_of (pendingInbounds ?st') (pendingKey params) =
         Some \<lparr>p_streamId = freshId, p_target = target params, p_msg = msg params,
               contents = [msgContent params],
               msgids = (case m_msgid (msg params) of
                           Some m \<Rightarrow> if m \<noteq> [] then [m] else []
                         | None \<Rightarrow> []),
               p_nonce = nonce params, p_timestamp = timestamp params,
               p_createdAt = now, timeout = Some (nextTimer st)\<rparr>"
  proof
    assume n: "map_of (pendingInbounds st) (pendingKey params) = None"
    note f = addPendingMessage_new [OF n, of freshId now]
    have "getStream ?st' freshId =
         Some \<lparr>streamId = freshId, msgid = m_msgid (msg params), createdAt = now,
               updatedAt = now, started = False, finished = False, content = []\<rparr>"
      by (simp add: getStream_def f(2) createStream_def Let_def update_conv')
    then show "fst (addPendingMessage params freshId now st) = (freshId, True) \<and>
       streams ?st' = streams (snd (createStream (m_msgid (msg params)) freshId now st)) \<and>
       msgidToStreamId ?st' =
         msgidToStreamId (snd (createStream (m_msgid (msg params)) freshId now st)) \<and>
       getStream ?st' freshId =
         Some \<lparr>streamId = freshId, msgid = m_msgid (msg params), createdAt = now,
               updatedAt = now, started = False, finished = False, content = []\<rparr> \<and>
       map_of (pendingInbounds ?st') (pendingKey params) =
         Some \<lparr>p_streamId = freshId, p_target = target params, p_msg = msg params,
               contents = [msgContent params],
               msgids = (case m_msgid (msg params) of
                           Some m \<Rightarrow> if m \<noteq> [] then [m] else []
                         | None \<Rightarrow> []),
               p_nonce = nonce params, p_timestamp = timestamp params,
               p_createdAt = now, timeout = Some (nextTimer st)\<rparr>"
      by (simp add: f(1,2,3,8) update_conv')
  qed
  have common: "map_of (timers ?st') (nextTimer st) =
       Some \<lparr>t_key = pendingKey params, t_setAt = now,
             t_delay = (case debounceMs params of Some d \<Rightarrow> d | None \<Rightarrow> DEFAULT_DEBOUNCE_MS)\<rparr> \<and>
     (\<forall>k'. k' \<noteq> pendingKey params \<longrightarrow>
        map_of (pendingInbounds ?st') k' = map_of (pendingInbounds st) k') \<and>
     flushCalls ?st' = flushCalls st"
  proof (cases "map_of (pendingInbounds st) (pendingKey params)")
    case None
    note f = addPendingMessage_new [OF None, of freshId now]
    show ?thesis by (simp add: f(5,7,8) update_conv')
  next
    case (Some existing)
    note f = addPendingMessage_existing [OF Some, of freshId now]
    show ?thesis by (simp add: f(5,7,8) update_conv')
  qed
  have d: "DEFAULT_DEBOUNCE_MS = 500"
    by (simp add: DEFAULT_DEBOUNCE_MS_def)
  from ex new common [THEN conjunct1] common [THEN conjunct2, THEN conjunct1]
    common [THEN conjunct2, THEN conjunct2] d
  show ?thesis by (intro conjI) assumption+
qed

theorem addPendingMessage_extends_or_creates_witness:
  "storeInv store0 \<and> map_of (pendingInbounds store0) (pendingKey arrivalHello) = None \<and>
   fst (addPendingMessage arrivalHello ''id1'' 1000 store0) = (''id1'', True) \<and>
   map_option contents (map_of (pendingInbounds pendingStore1) ''u1'') = Some [''hello''] \<and>
   storeInv pendingStore1 \<and>
   fst (addPendingMessage arrivalWorld ''id2'' 1100 pendingStore1) = (''id1'', False) \<and>
   map_option contents
     (map_of (pendingInbounds (snd (addPendingMessage arrivalWorld ''id2'' 1100 pendingStore1)))
        ''u1'') = Some [''hello'', '' world''] \<and>
   map_option msgids
     (map_of (pendingInbounds (snd (addPendingMessage arrivalWorld ''id2'' 1100 pendingStore1)))
        ''u1'') = Some [''m1'', ''m2''] \<and>
   map_of (timers (snd (addPendingMessage arrivalWorld ''id2'' 1100 pendingStore1))) 0 = None \<and>
   map_of (timers (snd (addPendingMessage arrivalWorld ''id2'' 1100 pendingStore1))) 1 =
     Some \<lparr>t_key = ''u1'', t_setAt = 1100, t_delay = 500\<rparr>"
proof -
  have a: "map_of (pendingInbounds store0) (pendingKey arrivalHello) = None"
    by (simp add: store0_eq)
  have b: "map_of (pendingInbounds pendingStore1) (pendingKey arrivalWorld) =
      Some \<lparr>p_streamId = ''id1'', p_target = (),
            p_msg = \<lparr>m_msgid = Some ''m1'', m_rest = ()\<rparr>, contents = [''hello''],
            msgids = [''m1''], p_nonce = ''n1'', p_timestamp = ''t1'', p_createdAt = 1000,
            timeout = Some 0\<rparr>"
    by (simp add: pendingStore1_eq arrivalWorld_def)
  have k: "pendingKey arrivalWorld = ''u1''" "msgContent arrivalWorld = '' world''"
      "m_msgid (msg arrivalWorld) = Some ''m2''" "debounceMs arrivalWorld = None"
    by (simp_all add: arrivalWorld_def)
  have n: "nextTimer pendingStore1 = 1"
    by (simp add: pendingStore1_eq)
  from addPendingMessage_extends_or_creates
    [OF storeInv_store0, of arrivalHello "''id1''" 1000] a
  have 1: "fst (addPendingMessage arrivalHello ''id1'' 1000 store0) = (''id1'', True)"
    by simp
  from addPendingMessage_extends_or_creates
    [OF storeInv_pendingStore1, of arrivalWorld "''id2''" 1100] b
  have 2: "fst (addPendingMessage arrivalWorld ''id2'' 1100 pendingStore1) = (''id1'', False) \<and>
      map_option contents
        (map_of (pendingInbounds (snd (addPendingMessage arrivalWorld ''id2'' 1100 pendingStore1)))
           ''u1'') = Some [''hello'', '' world''] \<and>
      map_option msgids
        (map_of (pendingInbounds (snd (addPendingMessage arrivalWorld ''id2'' 1100 pendingStore1)))
           ''u1'') = Some [''m1'', ''m2''] \<and>
      map_of (timers (snd (addPendingMessage arrivalWorld ''id2'' 1100 pendingStore1))) 0 = None \<and>
      map_of (timers (snd (addPendingMessage arrivalWorld ''id2'' 1100 pendingStore1))) 1 =
        Some \<lparr>t_key = ''u1'', t_setAt = 1100, t_delay = 500\<rparr>"
    by (simp add: k n)
  have 3: "map_option contents (map_of (pendingInbounds pendingStore1) ''u1'') = Some [''hello'']"
    by (simp add: pendingStore1_eq)
  from storeInv_store0 a 1 3 storeInv_pendingStore1 2 show ?thesis by simp
qed

text \<open>
  C3. In a store that satisfies the invariant, with a flush handler registered and no
  group for key \<open>k\<close>, let \<open>N\<close> arrivals for \<open>k\<close> follow one another. Then \<^verbatim>\<open>isNew\<close> is true
  for the first arrival and false for all later ones, all arrivals return the stream
  id drawn at the first, and the handler is not invoked during the arrivals. Afterwards
  exactly one live timer is registered for \<open>k\<close>. When it fires, the handler is invoked
  once, with a group whose fragment sequence has length \<open>N\<close> and lists the fragments in
  arrival order. After that flush no group and no live timer for \<open>k\<close> remain: a further
  \<^verbatim>\<open>flushPending\<close> for \<open>k\<close>, and a further firing of the same timer, change nothing, so
  the handler is invoked zero more times.
\<close>

theorem arrivals_flush_exactly_once:
  assumes "storeInv st"
    and "map_of (pendingInbounds st) k = None"
    and "onFlush st = Some handler"
    and "pendingKey params = k"
    and "\<forall>a \<in> set rest. pendingKey (fst a) = k"
  shows "\<exists>h t p.
     map snd (fst (addPendingMessages ((params, freshId, now) # rest) st)) =
       True # replicate (length rest) False \<and>
     map fst (fst (addPendingMessages ((params, freshId, now) # rest) st)) =
       replicate (Suc (length rest)) freshId \<and>
     flushCalls (snd (addPendingMessages ((params, freshId, now) # rest) st)) = flushCalls st \<and>
     map_of (timers (snd (addPendingMessages ((params, freshId, now) # rest) st))) h = Some t \<and>
     t_key t = k \<and>
     (\<forall>h' t'. map_of (timers (snd (addPendingMessages ((params, freshId, now) # rest) st))) h'
                 = Some t' \<and> t_key t' = k \<longrightarrow> h' = h) \<and>
     fireTimer h (snd (addPendingMessages ((params, freshId, now) # rest) st)) =
       flushPending k (snd (addPendingMessages ((params, freshId, now) # rest) st)) \<and>
     flushCalls (fireTimer h (snd (addPendingMessages ((params, freshId, now) # rest) st))) =
       flushCalls st @ [(handler, p)] \<and>
     contents p = msgContent params # map (\<lambda>a. msgContent (fst a)) rest \<and>
     length (contents p) = Suc (length rest) \<and>
     p_streamId p = freshId \<and>
     map_of (pendingInbounds
        (fireTimer h (snd (addPendingMessages ((params, freshId, now) # rest) st)))) k = None \<and>
     (\<forall>h' t'. map_of (timers
        (fireTimer h (snd (addPendingMessages ((params, freshId, now) # rest) st)))) h' = Some t'
        \<longrightarrow> t_key t' \<noteq> k) \<and>
     flushPending k (fireTimer h (snd (addPendingMessages ((params, freshId, now) # rest) st))) =
       fireTimer h (snd (addPendingMessages ((params, freshId, now) # rest) st)) \<and>
     fireTimer h (fireTimer h (snd (addPendingMessages ((params, freshId, now) # rest) st))) =
       fireTimer h (snd (addPendingMessages ((params, freshId, now) # rest) st))"
proof -
  let ?st0 = "snd (addPendingMessage params freshId now st)"
  let ?res = "addPendingMessages ((params, freshId, now) # rest) st"
  let ?st1 = "snd ?res"
  let ?p0 = "\<lparr>p_streamId = freshId, p_target = target params, p_msg = msg params,
              contents = [msgContent params],
              msgids = (case m_msgid (msg params) of
                          Some m \<Rightarrow> if m \<noteq> [] then [m] else []
                        | None \<Rightarrow> []),
              p_nonce = nonce params, p_timestamp = timestamp params,
              p_createdAt = now, timeout = Some (nextTimer st)\<rparr>"
  from assms(2,4) have none: "map_of (pendingInbounds st) (pendingKey params) = None" by simp
  note f = addPendingMessage_new [OF none, of freshId now]
  have p0: "map_of (pendingInbounds ?st0) k = Some ?p0"
    by (simp add: f(8) update_conv' assms(4))
  from addPendingMessages_existing [OF assms(5) p0]
  obtain p' where flags: "map snd (fst (addPendingMessages rest ?st0)) = replicate (length rest) False"
    and ids: "map fst (fst (addPendingMessages rest ?st0)) = replicate (length rest) freshId"
    and onf: "onFlush (snd (addPendingMessages rest ?st0)) = onFlush ?st0"
    and calls: "flushCalls (snd (addPendingMessages rest ?st0)) = flushCalls ?st0"
    and p': "map_of (pendingInbounds (snd (addPendingMessages rest ?st0))) k = Some p'"
      "contents p' = contents ?p0 @ map (\<lambda>a. msgContent (fst a)) rest"
      "p_streamId p' = p_streamId ?p0"
    by auto
  have st1: "?st1 = snd (addPendingMessages rest ?st0)"
    by (simp add: addPendingMessages_Cons)
  have inv1: "storeInv ?st1"
    using assms(1) by (rule storeInv_addPendingMessages)
  note m1 = storeInv_maps [OF inv1]
  from p'(1) have g1: "map_of (pendingInbounds ?st1) k = Some p'" by (simp add: st1)
  from m1(3) [OF g1] obtain h t where h: "timeout p' = Some h" "map_of (timers ?st1) h = Some t"
      "t_key t = k"
    by blast
  have uniq: "\<forall>h' t'. map_of (timers ?st1) h' = Some t' \<and> t_key t' = k \<longrightarrow> h' = h"
  proof (intro allI impI)
    fix h' t'
    assume a: "map_of (timers ?st1) h' = Some t' \<and> t_key t' = k"
    with m1(4) [of h' t'] g1 h(1) show "h' = h" by auto
  qed
  have fire: "fireTimer h ?st1 = flushPending k ?st1"
    using fireTimer_eq_flushPending [OF inv1 h(2)] h(3) by simp
  note ff = flushPending_fields [OF g1 h(1)]
  have onf1: "onFlush ?st1 = Some handler"
    by (simp add: st1 onf f(4) assms(3))
  have calls1: "flushCalls ?st1 = flushCalls st"
    by (simp add: st1 calls f(5))
  let ?p = "p'\<lparr>timeout := None\<rparr>"
  let ?st2 = "fireTimer h ?st1"
  have c2: "flushCalls ?st2 = flushCalls st @ [(handler, ?p)]"
    by (simp add: fire ff(7) onf1 calls1)
  have pend2: "map_of (pendingInbounds ?st2) k = None"
    by (simp add: fire ff(5) delete_conv')
  have inv2: "storeInv ?st2"
    using inv1 by (rule storeInv_fireTimer)
  note m2 = storeInv_maps [OF inv2]
  have not2: "\<forall>h' t'. map_of (timers ?st2) h' = Some t' \<longrightarrow> t_key t' \<noteq> k"
  proof (intro allI impI)
    fix h' t'
    assume "map_of (timers ?st2) h' = Some t'"
    from m2(4) [OF this] pend2 show "t_key t' \<noteq> k" by auto
  qed
  have again: "flushPending k ?st2 = ?st2"
    using pend2 by (rule flushPending_absent)
  have "map_of (timers ?st2) h = None"
    by (simp add: fire ff(6) delete_conv')
  then have again2: "fireTimer h ?st2 = ?st2"
    by (simp add: fireTimer_def)
  have r1: "map snd (fst ?res) = True # replicate (length rest) False"
    by (simp add: addPendingMessages_Cons f(1) flags)
  have r2: "map fst (fst ?res) = replicate (Suc (length rest)) freshId"
    by (simp add: addPendingMessages_Cons f(1) ids)
  have cont: "contents ?p = msgContent params # map (\<lambda>a. msgContent (fst a)) rest"
    by (simp add: p'(2))
  have len: "length (contents ?p) = Suc (length rest)"
    by (simp add: p'(2))
  have sid: "p_streamId ?p = freshId"
    by (simp add: p'(3))
  show ?thesis
    apply (rule exI [of _ h], rule exI [of _ t], rule exI [of _ ?p])
    using r1 r2 calls1 h(2,3) uniq fire c2 cont len sid pend2 not2 again again2
    by (intro conjI) assumption+
qed

theorem arrivals_flush_exactly_once_witness:
  "storeInv store0 \<and> map_of (pendingInbounds store0) ''u1'' = None \<and> onFlush store0 = Some 7 \<and>
   pendingKey arrivalHello = ''u1'' \<and> pendingKey arrivalWorld = ''u1'' \<and>
   map snd (fst (addPendingMessages
      [(arrivalHello, ''id1'', 1000), (arrivalWorld, ''id2'', 1100)] store0)) = [True, False] \<and>
   (\<exists>h p. flushCalls (fireTimer h (snd (addPendingMessages
        [(arrivalHello, ''id1'', 1000), (arrivalWorld, ''id2'', 1100)] store0))) = [(7, p)] \<and>
      contents p = [''hello'', '' world''] \<and> p_streamId p = ''id1'')"
proof -
  have a: "map_of (pendingInbounds store0) ''u1'' = None" "onFlush store0 = Some 7"
      "flushCalls store0 = []"
    by (simp_all add: store0_eq)
  have k: "pendingKey arrivalHello = ''u1''" "msgContent arrivalHello = ''hello''"
    by (simp_all add: arrivalHello_def)
  have r: "\<forall>a \<in> set [(arrivalWorld, ''id2'', 1100::int)]. pendingKey (fst a) = ''u1''"
    by (simp add: arrivalWorld_def)
  have w: "msgContent arrivalWorld = '' world''" "pendingKey arrivalWorld = ''u1''"
    by (simp_all add: arrivalWorld_def)
  from arrivals_flush_exactly_once [OF storeInv_store0 a(1) a(2) k(1) r, of "''id1''" 1000]
  obtain h t p where
    "map snd (fst (addPendingMessages
        [(arrivalHello, ''id1'', 1000), (arrivalWorld, ''id2'', 1100)] store0)) = [True, False]"
    "flushCalls (fireTimer h (snd (addPendingMessages
        [(arrivalHello, ''id1'', 1000), (arrivalWorld, ''id2'', 1100)] store0))) = [(7, p)]"
    "contents p = [''hello'', '' world'']" "p_streamId p = ''id1''"
    by (auto simp: a(3) k(2) w(1))
  with storeInv_store0 a(1,2) k(1) w(2) show ?thesis by blast
qed

section \<open>Properties of \<^verbatim>\<open>prune\<close> on pending groups\<close>

lemma pendingStore2_eq:
  "pendingStore2 =
     \<lparr>streams = [(''id1'', \<lparr>streamId = ''id1'', msgid = Some ''m1'', createdAt = 1000,
                  updatedAt = 1000, started = False, finished = False, content = []\<rparr>),
                 (''id2'', \<lparr>streamId = ''id2'', msgid = None, createdAt = 700000,
                  updatedAt = 700000, started = False, finished = False, content = []\<rparr>)],
      msgidToStreamId = [(''m1'', ''id1'')],
      pendingInbounds =
        [(''u1'', \<lparr>p_streamId = ''id1'', p_target = (),
                  p_msg = \<lparr>m_msgid = Some ''m1'', m_rest = ()\<rparr>, contents = [''hello''],
                  msgids = [''m1''], p_nonce = ''n1'', p_timestamp = ''t1'', p_createdAt = 1000,
                  timeout = Some 0\<rparr>),
         (''u2'', \<lparr>p_streamId = ''id2'', p_target = (),
                  p_msg = \<lparr>m_msgid = None, m_rest = ()\<rparr>, contents = [''later''],
                  msgids = [], p_nonce = ''n3'', p_timestamp = ''t3'', p_createdAt = 700000,
                  timeout = Some 1\<rparr>)],
      onFlush = Some 7,
      timers = [(0, \<lparr>t_key = ''u1'', t_setAt = 1000, t_delay = 500\<rparr>),
                (1, \<lparr>t_key = ''u2'', t_setAt = 700000, t_delay = 500\<rparr>)],
      nextTimer = Suc (Suc 0), flushCalls = []\<rparr>"
  by (simp add: pendingStore2_def pendingStore1_eq arrivalOther_def addPendingMessage_def
      createStream_def setTimeout_def DEFAULT_DEBOUNCE_MS_def)

text \<open>
  C8. In a store that satisfies the invariant, \<^verbatim>\<open>prune(now)\<close> removes from the pending
  map exactly the groups with \<open>now - createdAt\<close> above \<open>STREAM_TTL_MS\<close> and leaves every
  other group as it is; the timer of a removed group leaves the timer table, the timer
  of a group that stays is untouched; and the log of flush handler calls is unchanged,
  so the handler is not invoked.
\<close>

theorem prune_drops_stale_pending_groups:
  assumes "storeInv st"
  shows "map_of (pendingInbounds (prune now st)) k =
       (case map_of (pendingInbounds st) k of
          None \<Rightarrow> None
        | Some p \<Rightarrow> if now - p_createdAt p > STREAM_TTL_MS then None else Some p) \<and>
     flushCalls (prune now st) = flushCalls st \<and>
     (\<forall>p h. map_of (pendingInbounds st) k = Some p \<and> timeout p = Some h \<longrightarrow>
        map_of (timers (prune now st)) h =
          (if now - p_createdAt p > STREAM_TTL_MS then None else map_of (timers st) h))"
proof -
  define K where "K = {k. \<exists>p. (k, p) \<in> set (pendingInbounds st) \<and>
      now - p_createdAt p > STREAM_TTL_MS}"
  define H where "H = {h. \<exists>k p. (k, p) \<in> set (pendingInbounds st) \<and>
      now - p_createdAt p > STREAM_TTL_MS \<and> timeout p = Some h}"
  note m = storeInv_maps [OF assms]
  have pe: "pendingInbounds (prune now st) = AList.restrict (- K) (pendingInbounds st)"
    unfolding K_def by (rule prune_fields)
  have ti: "timers (prune now st) = AList.restrict (- H) (timers st)"
    unfolding H_def by (rule prune_fields)
  have mem: "\<And>k p. (k, p) \<in> set (pendingInbounds st) \<longleftrightarrow> map_of (pendingInbounds st) k = Some p"
    using m(1) by simp
  have Kiff: "\<And>k. k \<in> K \<longleftrightarrow>
      (\<exists>p. map_of (pendingInbounds st) k = Some p \<and> now - p_createdAt p > STREAM_TTL_MS)"
    by (simp add: K_def mem)
  have Hiff: "\<And>h. h \<in> H \<longleftrightarrow>
      (\<exists>k p. map_of (pendingInbounds st) k = Some p \<and> now - p_createdAt p > STREAM_TTL_MS \<and>
         timeout p = Some h)"
    by (simp add: H_def mem)
  have 1: "map_of (pendingInbounds (prune now st)) k =
       (case map_of (pendingInbounds st) k of
          None \<Rightarrow> None
        | Some p \<Rightarrow> if now - p_createdAt p > STREAM_TTL_MS then None else Some p)"
    by (cases "map_of (pendingInbounds st) k")
       (simp_all add: pe restr_conv' restrict_map_def Kiff)
  have 3: "\<forall>p h. map_of (pendingInbounds st) k = Some p \<and> timeout p = Some h \<longrightarrow>
        map_of (timers (prune now st)) h =
          (if now - p_createdAt p > STREAM_TTL_MS then None else map_of (timers st) h)"
  proof (intro allI impI)
    fix p h
    assume a: "map_of (pendingInbounds st) k = Some p \<and> timeout p = Some h"
    from m(3) [of k p] a obtain t where t: "map_of (timers st) h = Some t" "t_key t = k"
      by auto
    have "h \<in> H \<longleftrightarrow> now - p_createdAt p > STREAM_TTL_MS"
    proof
      assume "h \<in> H"
      then obtain k' p' where p': "map_of (pendingInbounds st) k' = Some p'"
          "now - p_createdAt p' > STREAM_TTL_MS" "timeout p' = Some h"
        using Hiff by blast
      from m(3) [OF p'(1)] p'(3) t have "k' = k" by auto
      with p' a show "now - p_createdAt p > STREAM_TTL_MS" by auto
    next
      assume "now - p_createdAt p > STREAM_TTL_MS"
      with a show "h \<in> H" using Hiff by blast
    qed
    then show "map_of (timers (prune now st)) h =
          (if now - p_createdAt p > STREAM_TTL_MS then None else map_of (timers st) h)"
      by (simp add: ti restr_conv' restrict_map_def)
  qed
  from 1 3 show ?thesis by (simp add: prune_fields(5))
qed

theorem prune_drops_stale_pending_groups_witness:
  "storeInv pendingStore2 \<and>
   map_of (pendingInbounds (prune 800000 pendingStore2)) ''u1'' = None \<and>
   map_of (timers (prune 800000 pendingStore2)) 0 = None \<and>
   map_option contents (map_of (pendingInbounds (prune 800000 pendingStore2)) ''u2'') =
     Some [''later''] \<and>
   map_of (timers (prune 800000 pendingStore2)) 1 =
     Some \<lparr>t_key = ''u2'', t_setAt = 700000, t_delay = 500\<rparr> \<and>
   flushCalls (prune 800000 pendingStore2) = []"
proof -
  have u1: "map_of (pendingInbounds pendingStore2) ''u1'' =
      Some \<lparr>p_streamId = ''id1'', p_target = (),
            p_msg = \<lparr>m_msgid = Some ''m1'', m_rest = ()\<rparr>, contents = [''hello''],
            msgids = [''m1''], p_nonce = ''n1'', p_timestamp = ''t1'', p_createdAt = 1000,
            timeout = Some 0\<rparr>"
    and u2: "map_of (pendingInbounds pendingStore2) ''u2'' =
      Some \<lparr>p_streamId = ''id2'', p_target = (),
            p_msg = \<lparr>m_msgid = None, m_rest = ()\<rparr>, contents = [''later''],
            msgids = [], p_nonce = ''n3'', p_timestamp = ''t3'', p_createdAt = 700000,
            timeout = Some 1\<rparr>"
    and t1: "map_of (timers pendingStore2) 1 =
      Some \<lparr>t_key = ''u2'', t_setAt = 700000, t_delay = 500\<rparr>"
    and fc: "flushCalls pendingStore2 = []"
    by (simp_all add: pendingStore2_eq)
  from prune_drops_stale_pending_groups [OF storeInv_pendingStore2, of 800000 "''u1''"] u1 fc
  have a: "map_of (pendingInbounds (prune 800000 pendingStore2)) ''u1'' = None \<and>
      map_of (timers (prune 800000 pendingStore2)) 0 = None \<and>
      flushCalls (prune 800000 pendingStore2) = []"
    by (simp add: STREAM_TTL_MS_def)
  from prune_drops_stale_pending_groups [OF storeInv_pendingStore2, of 800000 "''u2''"] u2 t1
  have b: "map_option contents (map_of (pendingInbounds (prune 800000 pendingStore2)) ''u2'') =
        Some [''later''] \<and>
      map_of (timers (prune 800000 pendingStore2)) 1 =
        Some \<lparr>t_key = ''u2'', t_setAt = 700000, t_delay = 500\<rparr>"
    by (simp add: STREAM_TTL_MS_def)
  from storeInv_pendingStore2 a b show ?thesis by simp
qed

end
